theory Spec2Isabelle
  imports Complex_Main "HOL-Library.Word"
begin

section \<open>The OBJ loader of \<^verbatim>\<open>src/libs/n3dc_obj.h\<close>\<close>

text \<open>
  The loader reads a whole text file into a buffer and scans it once. The model takes the
  contents of the file as a \<open>string\<close> \<open>cs\<close>; the C parameter \<open>file_chars_length\<close> is
  \<open>length cs\<close> everywhere. The buffer of the C code holds one more byte, the terminating
  NUL that \<open>n3dc_obj_read_text_file\<close> stores after the contents. Opening and reading the
  file, and a failing \<open>malloc\<close>, are outside the model.

  \<open>unsigned int\<close> is a 32-bit word, \<open>size_t\<close> offsets into the buffer are natural numbers
  (they are bounded by the length of the file). A \<open>float\<close> is modelled by the rational
  number its decimal text denotes; the rounding of \<open>(float)atof(...)\<close> to binary32 is not
  modelled. Memory that \<open>malloc\<close> returned and nobody wrote yet holds \<open>None\<close>.
\<close>

type_synonym uint = "32 word"

datatype error =
    VecMissingX               \<comment> \<open>Reached end of OBJ vertex/normal line without parsing the x element\<close>
  | VecMissingY               \<comment> \<open>Reached end of OBJ vertex/normal line without parsing the y element\<close>
  | VecInvalidChar char       \<comment> \<open>Invalid character encountered when parsing OBJ vertex/normal\<close>
  | VecEndOfFile              \<comment> \<open>Reached end of OBJ file while parsing a vertex/normal\<close>
  | TexMissingX               \<comment> \<open>Reached end of OBJ texture coord line without parsing the x element\<close>
  | TexInvalidChar char       \<comment> \<open>Invalid character encountered while parsing OBJ texture coord\<close>
  | TexEndOfFile              \<comment> \<open>Reached end of OBJ file while parsing a texture coord\<close>
  | MissingTextureIndex       \<comment> \<open>Reached end of OBJ index group without parsing the texture index\<close>
  | VertexIndexInvalid        \<comment> \<open>Vertex index of OBJ index group was either missing or invalid\<close>
  | TextureIndexInvalid       \<comment> \<open>Texture index of OBJ index group was either missing or invalid\<close>
  | NormalIndexInvalid        \<comment> \<open>Normal index of OBJ index group was either missing or invalid\<close>
  | IndexGroupEndOfFile       \<comment> \<open>Reached end of OBJ file while parsing an index group\<close>
  | NonTriangulated           \<comment> \<open>Parsed 3 OBJ index groups in current face without reaching a newline\<close>
  | FaceEndOfFile             \<comment> \<open>Reached end of OBJ file while parsing a face\<close>
  | SeekEndOfFile             \<comment> \<open>Reached end of file while seeking end of line\<close>
  | ExceededVertices          \<comment> \<open>Exceeded maximum number of vertices while parsing OBJ file\<close>
  | ExceededTextureCoords     \<comment> \<open>Exceed maximum number of texture coords (max_indices)\<close>
  | ExceededNormals           \<comment> \<open>Exceeded maximum number of normals while parsing OBJ file\<close>
  | ExceededIndices           \<comment> \<open>Exceeded maximum number of indices while parsing OBJ file\<close>
  | OutOfBoundsRead           \<comment> \<open>undefined behaviour: a read outside the allocated array\<close>
  | OutOfBoundsWrite          \<comment> \<open>undefined behaviour: a write outside the allocated array\<close>
  | IndeterminateIndex        \<comment> \<open>an index array entry is used that was never written\<close>
  | SignedOverflow            \<comment> \<open>undefined behaviour: \<open>int i\<close> of the resolver loop overflows\<close>

abbreviation newline :: char where
  "newline \<equiv> CHR 0x0A"

subsection \<open>The C library: \<open>isspace\<close>, \<open>atoi\<close>, \<open>atof\<close>\<close>

definition isspace :: "char \<Rightarrow> bool" where
  "isspace c = (c = CHR '' '' \<or> c = CHR 0x09 \<or> c = CHR 0x0A \<or> c = CHR 0x0B
                \<or> c = CHR 0x0C \<or> c = CHR 0x0D)"

definition isdigit :: "char \<Rightarrow> bool" where
  "isdigit c = (48 \<le> (of_char c :: nat) \<and> (of_char c :: nat) \<le> 57)"

text \<open>The value of the leading decimal digits of a string, accumulated from the left.\<close>

fun digits_value :: "int \<Rightarrow> string \<Rightarrow> int" where
  "digits_value acc [] = acc"
| "digits_value acc (c # cs) =
     (if isdigit c then digits_value (acc * 10 + (of_char c - 48)) cs else acc)"

text \<open>
  \<open>atoi\<close>: white space is skipped, one sign is read, the leading decimal digits are
  converted and the rest is ignored; without digits the result is 0. The strings it gets
  here have at most 10 characters, so the value fits a \<open>long\<close>; the conversion of the
  result to \<open>int\<close> and then to \<open>unsigned\<close> is the reduction modulo \<open>2 ^ 32\<close> that
  \<open>word_of_int\<close> makes in \<open>n3dc_obj_string_section_to_uint\<close>.
\<close>

definition atoi :: "string \<Rightarrow> int" where
  "atoi s =
     (case dropWhile isspace s of
        [] \<Rightarrow> 0
      | c # r \<Rightarrow>
          if c = CHR ''-'' then - digits_value 0 r
          else if c = CHR ''+'' then digits_value 0 r
          else digits_value 0 (c # r))"

text \<open>
  \<open>atof\<close> on the decimal form \<open>[-]digits[.digits]\<close>: white space is skipped, one sign is
  read, then digits, at most one point and more digits. Exponents, hexadecimal forms,
  \<open>inf\<close> and \<open>nan\<close> need a letter; both callers reject every letter before they convert.
  The result is the exact decimal value (a negative zero is 0).
\<close>

definition decimal_value :: "string \<Rightarrow> rat" where
  "decimal_value s =
     (let int_part = takeWhile isdigit s;
          rest = dropWhile isdigit s;
          frac_part = (case rest of
                         [] \<Rightarrow> []
                       | c # r \<Rightarrow> if c = CHR ''.'' then takeWhile isdigit r else [])
      in of_int (digits_value 0 int_part)
         + of_int (digits_value 0 frac_part) / 10 ^ length frac_part)"

definition atof :: "string \<Rightarrow> rat" where
  "atof s =
     (case dropWhile isspace s of
        [] \<Rightarrow> 0
      | c # r \<Rightarrow>
          if c = CHR ''-'' then - decimal_value r
          else if c = CHR ''+'' then decimal_value r
          else decimal_value (c # r))"

subsection \<open>Numeric token converter\<close>

definition n3dc_obj_min_uint :: "uint \<Rightarrow> uint \<Rightarrow> uint" where
  "n3dc_obj_min_uint a b = (if a < b then a else b)"

text \<open>
  \<open>char_count\<close> is \<open>min ((unsigned int)(end - start)) 10\<close>; the cast of the \<open>long\<close>
  difference is \<open>word_of_int\<close>. \<open>memcpy\<close> copies \<open>char_count\<close> characters from \<open>start\<close>.
\<close>

definition string_section :: "nat \<Rightarrow> nat \<Rightarrow> string \<Rightarrow> string" where
  "string_section start end full_string =
     (let char_count = n3dc_obj_min_uint (word_of_int (int end - int start)) 10
      in take (unat char_count) (drop start full_string))"

definition n3dc_obj_string_section_to_float :: "nat \<Rightarrow> nat \<Rightarrow> string \<Rightarrow> rat" where
  "n3dc_obj_string_section_to_float start end full_string =
     atof (string_section start end full_string)"

definition n3dc_obj_string_section_to_uint :: "nat \<Rightarrow> nat \<Rightarrow> string \<Rightarrow> uint" where
  "n3dc_obj_string_section_to_uint start end full_string =
     word_of_int (atoi (string_section start end full_string))"

subsection \<open>Vector scanners\<close>

definition n3dc_obj_is_valid_vec_char :: "char \<Rightarrow> bool" where
  "n3dc_obj_is_valid_vec_char c = (c \<in> set ''-.0123456789'')"

text \<open>
  The \<open>for\<close> loop of \<open>n3dc_obj_parse_obj_vec3\<close>; \<open>i\<close> is the loop variable, the flags and
  ends are the locals. The result is \<open>line_end\<close> and the three values.
\<close>

function n3dc_obj_parse_obj_vec3_loop ::
  "string \<Rightarrow> nat \<Rightarrow> nat \<Rightarrow> bool \<Rightarrow> nat \<Rightarrow> bool \<Rightarrow> nat \<Rightarrow> error + (nat \<times> rat \<times> rat \<times> rat)" where
  "n3dc_obj_parse_obj_vec3_loop cs vec3_start i x_parsed x_end y_parsed y_end =
     (if i < length cs then
        (let current_char = cs ! i in
         if current_char = CHR '' '' then
           (if \<not> x_parsed then n3dc_obj_parse_obj_vec3_loop cs vec3_start (i + 1) True i y_parsed y_end
            else if \<not> y_parsed then n3dc_obj_parse_obj_vec3_loop cs vec3_start (i + 1) x_parsed x_end True i
            else n3dc_obj_parse_obj_vec3_loop cs vec3_start (i + 1) x_parsed x_end y_parsed y_end)
         else if current_char = newline then
           (if \<not> x_parsed then Inl VecMissingX
            else if \<not> y_parsed then Inl VecMissingY
            else Inr (i,
                      n3dc_obj_string_section_to_float vec3_start x_end cs,
                      n3dc_obj_string_section_to_float x_end y_end cs,
                      n3dc_obj_string_section_to_float y_end i cs))
         else if \<not> n3dc_obj_is_valid_vec_char current_char then Inl (VecInvalidChar current_char)
         else n3dc_obj_parse_obj_vec3_loop cs vec3_start (i + 1) x_parsed x_end y_parsed y_end)
      else Inl VecEndOfFile)"
  by pat_completeness auto

termination
  by (relation "measure (\<lambda>(cs, vec3_start, i, rest). length cs - i)") auto

declare n3dc_obj_parse_obj_vec3_loop.simps [simp del]

definition n3dc_obj_parse_obj_vec3 :: "string \<Rightarrow> nat \<Rightarrow> error + (nat \<times> rat \<times> rat \<times> rat)" where
  "n3dc_obj_parse_obj_vec3 cs vec3_start =
     n3dc_obj_parse_obj_vec3_loop cs vec3_start vec3_start False 0 False 0"

text \<open>\<open>n3dc_obj_parse_obj_vec2\<close>: every space moves \<open>x_end\<close>.\<close>

function n3dc_obj_parse_obj_vec2_loop ::
  "string \<Rightarrow> nat \<Rightarrow> nat \<Rightarrow> bool \<Rightarrow> nat \<Rightarrow> error + (nat \<times> rat \<times> rat)" where
  "n3dc_obj_parse_obj_vec2_loop cs vec2_start i x_parsed x_end =
     (if i < length cs then
        (let current_char = cs ! i in
         if current_char = CHR '' '' then n3dc_obj_parse_obj_vec2_loop cs vec2_start (i + 1) True i
         else if current_char = newline then
           (if \<not> x_parsed then Inl TexMissingX
            else Inr (i,
                      n3dc_obj_string_section_to_float vec2_start x_end cs,
                      n3dc_obj_string_section_to_float x_end i cs))
         else if \<not> n3dc_obj_is_valid_vec_char current_char then Inl (TexInvalidChar current_char)
         else n3dc_obj_parse_obj_vec2_loop cs vec2_start (i + 1) x_parsed x_end)
      else Inl TexEndOfFile)"
  by pat_completeness auto

termination
  by (relation "measure (\<lambda>(cs, vec2_start, i, rest). length cs - i)") auto

declare n3dc_obj_parse_obj_vec2_loop.simps [simp del]

definition n3dc_obj_parse_obj_vec2 :: "string \<Rightarrow> nat \<Rightarrow> error + (nat \<times> rat \<times> rat)" where
  "n3dc_obj_parse_obj_vec2 cs vec2_start = n3dc_obj_parse_obj_vec2_loop cs vec2_start vec2_start False 0"

subsection \<open>Index-group scanner\<close>

text \<open>
  The scanner writes through its three out-pointers as it converts, also when it then
  fails: \<open>index_writes\<close> are the values it has stored (\<open>None\<close>: pointer not written).
\<close>

type_synonym index_group = "uint \<times> uint \<times> uint"

type_synonym index_writes = "uint option \<times> uint option \<times> uint option"

text \<open>The conversions at the end of a group (the block after the texture-index check).\<close>

definition index_group_convert ::
  "string \<Rightarrow> nat \<Rightarrow> nat \<Rightarrow> nat \<Rightarrow> nat \<Rightarrow> (error \<times> index_writes) + (nat \<times> index_group)" where
  "index_group_convert cs index_group_start vertex_index_end texture_index_end normal_index_end =
     (let vertex_index = n3dc_obj_string_section_to_uint index_group_start vertex_index_end cs in
      if vertex_index = 0 then Inl (VertexIndexInvalid, (Some 0, None, None))
      else
        let texture_index = n3dc_obj_string_section_to_uint (vertex_index_end + 1) texture_index_end cs in
        if texture_index = 0
        then Inl (TextureIndexInvalid, (Some (vertex_index - 1), Some 0, None))
        else
          let normal_index = n3dc_obj_string_section_to_uint (texture_index_end + 1) normal_index_end cs in
          if normal_index = 0
          then Inl (NormalIndexInvalid, (Some (vertex_index - 1), Some (texture_index - 1), Some 0))
          else Inr (normal_index_end, (vertex_index - 1, texture_index - 1, normal_index - 1)))"

function n3dc_obj_parse_obj_index_group_loop ::
  "string \<Rightarrow> nat \<Rightarrow> nat \<Rightarrow> bool \<Rightarrow> nat \<Rightarrow> bool \<Rightarrow> nat
     \<Rightarrow> (error \<times> index_writes) + (nat \<times> index_group)" where
  "n3dc_obj_parse_obj_index_group_loop cs index_group_start i
       vertex_index_parsed vertex_index_end texture_index_parsed texture_index_end =
     (if i < length cs then
        (let current_char = cs ! i in
         if current_char = CHR ''/'' then
           (if \<not> vertex_index_parsed
            then n3dc_obj_parse_obj_index_group_loop cs index_group_start (i + 1)
                   True i texture_index_parsed texture_index_end
            else if \<not> texture_index_parsed
            then n3dc_obj_parse_obj_index_group_loop cs index_group_start (i + 1)
                   vertex_index_parsed vertex_index_end True i
            else n3dc_obj_parse_obj_index_group_loop cs index_group_start (i + 1)
                   vertex_index_parsed vertex_index_end texture_index_parsed texture_index_end)
         else if (current_char = CHR '' '' \<or> current_char = newline) \<and> vertex_index_parsed then
           (if \<not> texture_index_parsed then Inl (MissingTextureIndex, (None, None, None))
            else index_group_convert cs index_group_start vertex_index_end texture_index_end i)
         else n3dc_obj_parse_obj_index_group_loop cs index_group_start (i + 1)
                vertex_index_parsed vertex_index_end texture_index_parsed texture_index_end)
      else Inl (IndexGroupEndOfFile, (None, None, None)))"
  by pat_completeness auto

termination
  by (relation "measure (\<lambda>(cs, index_group_start, i, rest). length cs - i)") auto

declare n3dc_obj_parse_obj_index_group_loop.simps [simp del]

definition n3dc_obj_parse_obj_index_group ::
  "string \<Rightarrow> nat \<Rightarrow> (error \<times> index_writes) + (nat \<times> index_group)" where
  "n3dc_obj_parse_obj_index_group cs index_group_start =
     n3dc_obj_parse_obj_index_group_loop cs index_group_start index_group_start False 0 False 0"

subsection \<open>Face scanner\<close>

text \<open>
  The \<open>while\<close> loop of \<open>n3dc_obj_parse_obj_face\<close>. \<open>group_1\<close> and \<open>group_2\<close> are the
  groups read so far: \<open>index_group_1_parsed\<close> is \<open>group_1 \<noteq> None\<close>. In the third branch
  the result of the scan is not looked at before the character at \<open>index_group_end\<close> is
  tested, and \<open>index_group_end\<close> is still \<open>current_char_offset\<close> when the scan failed.
\<close>

function n3dc_obj_parse_obj_face_loop ::
  "string \<Rightarrow> nat \<Rightarrow> index_group option \<Rightarrow> index_group option
     \<Rightarrow> error + (nat \<times> index_group \<times> index_group \<times> index_writes)" where
  "n3dc_obj_parse_obj_face_loop cs current_char_offset group_1 group_2 =
     (if current_char_offset < length cs then
        (case group_1 of
           None \<Rightarrow>
             (case n3dc_obj_parse_obj_index_group cs current_char_offset of
                Inl (e, w) \<Rightarrow> Inl e
              | Inr (index_group_end, g) \<Rightarrow>
                  n3dc_obj_parse_obj_face_loop cs index_group_end (Some g) group_2)
         | Some g1 \<Rightarrow>
             (case group_2 of
                None \<Rightarrow>
                  (case n3dc_obj_parse_obj_index_group cs current_char_offset of
                     Inl (e, w) \<Rightarrow> Inl e
                   | Inr (index_group_end, g) \<Rightarrow>
                       n3dc_obj_parse_obj_face_loop cs index_group_end group_1 (Some g))
              | Some g2 \<Rightarrow>
                  (case n3dc_obj_parse_obj_index_group cs current_char_offset of
                     Inl (e, w) \<Rightarrow>
                       if cs ! current_char_offset \<noteq> newline then Inl NonTriangulated
                       else Inr (current_char_offset, g1, g2, w)
                   | Inr (index_group_end, (v, t, n)) \<Rightarrow>
                       if cs ! index_group_end \<noteq> newline then Inl NonTriangulated
                       else Inr (index_group_end, g1, g2, (Some v, Some t, Some n)))))
      else Inl FaceEndOfFile)"
  by pat_completeness auto

termination
  by (relation "measure (\<lambda>(cs, off, g1, g2).
        (case g1 of None \<Rightarrow> 2 | Some _ \<Rightarrow> (case g2 of None \<Rightarrow> 1 | Some _ \<Rightarrow> 0)))")
     (auto split: option.splits)

declare n3dc_obj_parse_obj_face_loop.simps [simp del]

definition n3dc_obj_parse_obj_face ::
  "string \<Rightarrow> nat \<Rightarrow> error + (nat \<times> index_group \<times> index_group \<times> index_writes)" where
  "n3dc_obj_parse_obj_face cs face_start = n3dc_obj_parse_obj_face_loop cs face_start None None"

subsection \<open>Skipping a line\<close>

text \<open>
  A read of the buffer: the contents, then the terminating NUL, then nothing that the
  program owns.
\<close>

definition file_char :: "string \<Rightarrow> nat \<Rightarrow> char option" where
  "file_char cs i =
     (if i < length cs then Some (cs ! i) else if i = length cs then Some (CHR 0x00) else None)"

text \<open>
  The loop of \<open>n3dc_obj_seek_end_of_line\<close> tests \<open>start_offset < file_chars_length\<close>,
  which \<open>i++\<close> does not change: the scan is not stopped at the end of the contents.
\<close>

function n3dc_obj_seek_end_of_line_loop :: "string \<Rightarrow> nat \<Rightarrow> nat \<Rightarrow> error + nat" where
  "n3dc_obj_seek_end_of_line_loop cs start_offset i =
     (if start_offset < length cs then
        (case file_char cs i of
           None \<Rightarrow> Inl OutOfBoundsRead
         | Some c \<Rightarrow>
             if c = newline then Inr i
             else n3dc_obj_seek_end_of_line_loop cs start_offset (i + 1))
      else Inl SeekEndOfFile)"
  by pat_completeness auto

termination
  by (relation "measure (\<lambda>(cs, start_offset, i). length cs + 1 - i)")
     (auto simp: file_char_def split: if_splits)

declare n3dc_obj_seek_end_of_line_loop.simps [simp del]

definition n3dc_obj_seek_end_of_line :: "string \<Rightarrow> nat \<Rightarrow> error + nat" where
  "n3dc_obj_seek_end_of_line cs start_offset =
     n3dc_obj_seek_end_of_line_loop cs start_offset start_offset"

subsection \<open>Scanners end at or after their start\<close>

text \<open>
  Every scanner that succeeds returns an offset inside the contents, at or after the
  offset it started from. The driver loop ends for this reason.
\<close>

lemma vec3_loop_end:
  "n3dc_obj_parse_obj_vec3_loop cs st i xp xe yp ye = Inr (line_end, v) \<Longrightarrow> i \<le> line_end \<and> line_end < length cs"
proof (induction "length cs - i" arbitrary: i xp xe yp ye rule: less_induct)
  case less
  from less.prems show ?case
    by (subst (asm) n3dc_obj_parse_obj_vec3_loop.simps)
       (auto simp: Let_def split: if_splits dest!: less.hyps[rotated])
qed

lemma vec2_loop_end:
  "n3dc_obj_parse_obj_vec2_loop cs st i xp xe = Inr (line_end, v) \<Longrightarrow> i \<le> line_end \<and> line_end < length cs"
proof (induction "length cs - i" arbitrary: i xp xe rule: less_induct)
  case less
  from less.prems show ?case
    by (subst (asm) n3dc_obj_parse_obj_vec2_loop.simps)
       (auto simp: Let_def split: if_splits dest!: less.hyps[rotated])
qed

lemma index_group_convert_end:
  "index_group_convert cs st ve te ne = Inr (index_group_end, g) \<Longrightarrow> index_group_end = ne"
  by (auto simp: index_group_convert_def Let_def split: if_splits)

lemma index_group_loop_end:
  "n3dc_obj_parse_obj_index_group_loop cs st i vp ve tp te = Inr (index_group_end, g)
     \<Longrightarrow> i \<le> index_group_end \<and> index_group_end < length cs"
proof (induction "length cs - i" arbitrary: i vp ve tp te rule: less_induct)
  case less
  from less.prems show ?case
    by (subst (asm) n3dc_obj_parse_obj_index_group_loop.simps)
       (auto simp: Let_def split: if_splits dest!: less.hyps[rotated] index_group_convert_end)
qed

lemma index_group_end:
  "n3dc_obj_parse_obj_index_group cs st = Inr (index_group_end, g)
     \<Longrightarrow> st \<le> index_group_end \<and> index_group_end < length cs"
  unfolding n3dc_obj_parse_obj_index_group_def by (rule index_group_loop_end)

lemma seek_loop_end:
  "n3dc_obj_seek_end_of_line_loop cs st i = Inr line_end \<Longrightarrow> i \<le> line_end"
proof (induction "length cs + 1 - i" arbitrary: i rule: less_induct)
  case less
  from less.prems show ?case
    by (subst (asm) n3dc_obj_seek_end_of_line_loop.simps)
       (auto simp: file_char_def split: if_splits option.splits dest!: less.hyps[rotated])
qed

lemma face_loop_end:
  "n3dc_obj_parse_obj_face_loop cs off g1 g2 = Inr (line_end, r)
     \<Longrightarrow> off \<le> line_end \<and> line_end < length cs"
proof (induction cs off g1 g2 rule: n3dc_obj_parse_obj_face_loop.induct)
  case (1 cs off g1 g2)
  from "1.prems" have lt: "off < length cs"
    by (subst (asm) n3dc_obj_parse_obj_face_loop.simps) (simp split: if_splits)
  show ?case
  proof (cases "n3dc_obj_parse_obj_index_group cs off")
    case (Inl ew)
    with "1.prems" lt show ?thesis
      by (subst (asm) n3dc_obj_parse_obj_face_loop.simps)
         (auto split: if_splits option.splits prod.splits)
  next
    case (Inr eg)
    obtain e g where eg: "eg = (e, g)" by (cases eg)
    from Inr eg have ge: "off \<le> e \<and> e < length cs" by (auto dest: index_group_end)
    show ?thesis
    proof (cases g1)
      case None
      with "1.prems" lt Inr eg have "n3dc_obj_parse_obj_face_loop cs e (Some g) g2 = Inr (line_end, r)"
        by (subst (asm) n3dc_obj_parse_obj_face_loop.simps) simp
      from "1.IH"(1)[OF lt None Inr eg[symmetric] this] ge show ?thesis by simp
    next
      case (Some a)
      note g1 = this
      show ?thesis
      proof (cases g2)
        case None
        with "1.prems" lt Inr eg g1 have "n3dc_obj_parse_obj_face_loop cs e g1 (Some g) = Inr (line_end, r)"
          by (subst (asm) n3dc_obj_parse_obj_face_loop.simps) simp
        from "1.IH"(2)[OF lt g1 None Inr eg[symmetric] this] ge show ?thesis by simp
      next
        case (Some b)
        with "1.prems" lt Inr eg g1 ge show ?thesis
          by (subst (asm) n3dc_obj_parse_obj_face_loop.simps)
             (auto split: if_splits prod.splits)
      qed
    qed
  qed
qed

lemma vec3_end:
  "n3dc_obj_parse_obj_vec3 cs st = Inr (line_end, v) \<Longrightarrow> st \<le> line_end \<and> line_end < length cs"
  unfolding n3dc_obj_parse_obj_vec3_def by (rule vec3_loop_end)

lemma vec2_end:
  "n3dc_obj_parse_obj_vec2 cs st = Inr (line_end, v) \<Longrightarrow> st \<le> line_end \<and> line_end < length cs"
  unfolding n3dc_obj_parse_obj_vec2_def by (rule vec2_loop_end)

lemma face_end:
  "n3dc_obj_parse_obj_face cs st = Inr (line_end, r) \<Longrightarrow> st \<le> line_end \<and> line_end < length cs"
  unfolding n3dc_obj_parse_obj_face_def by (rule face_loop_end)

lemma seek_end:
  "n3dc_obj_seek_end_of_line cs st = Inr line_end \<Longrightarrow> st \<le> line_end"
  unfolding n3dc_obj_seek_end_of_line_def by (rule seek_loop_end)

subsection \<open>Driver loop\<close>

text \<open>
  The locals of \<open>n3dc_obj_load\<close> that the loop changes. The three pools and the three index
  arrays are the \<open>malloc\<close>ed buffers.
\<close>

record load_state =
  current_char_offset :: nat
  vertices :: "rat option list"
  vertex_offset :: uint
  parsed_vertices :: uint
  texture_coords :: "rat option list"
  texture_coord_offset :: uint
  parsed_texture_coords :: uint
  normals :: "rat option list"
  normal_offset :: uint
  parsed_normals :: uint
  vertex_indices :: "uint option list"
  texture_indices :: "uint option list"
  normal_indices :: "uint option list"
  parsed_indices :: uint
  index_offset :: uint

text \<open>A write \<open>xs[i] = v\<close> into a buffer of \<open>length xs\<close> elements.\<close>

definition store :: "'a option list \<Rightarrow> uint \<Rightarrow> 'a \<Rightarrow> error + 'a option list" where
  "store xs i v = (if unat i < length xs then Inr (xs[unat i := Some v]) else Inl OutOfBoundsWrite)"

definition store_written :: "'a option list \<Rightarrow> uint \<Rightarrow> 'a option \<Rightarrow> error + 'a option list" where
  "store_written xs i w = (case w of None \<Rightarrow> Inr xs | Some v \<Rightarrow> store xs i v)"

definition bind_error :: "error + 'a \<Rightarrow> ('a \<Rightarrow> error + 'b) \<Rightarrow> error + 'b" where
  "bind_error r f = (case r of Inl e \<Rightarrow> Inl e | Inr x \<Rightarrow> f x)"

text \<open>
  The writes of one face through the nine pointers into one index array: the first two
  groups are written whenever the face scan returns 0, the third as far as its scan got.
\<close>

definition store_face :: "uint option list \<Rightarrow> uint \<Rightarrow> uint \<Rightarrow> uint \<Rightarrow> uint \<Rightarrow> uint \<Rightarrow> uint option
    \<Rightarrow> error + uint option list" where
  "store_face xs group_1_offset group_2_offset group_3_offset a b w =
     bind_error (store xs group_1_offset a) (\<lambda>xs1.
     bind_error (store xs1 group_2_offset b) (\<lambda>xs2.
     store_written xs2 group_3_offset w))"

text \<open>
  The body of the \<open>while\<close> loop of \<open>n3dc_obj_load\<close>, run when
  \<open>current_char_offset < file_chars_length\<close>: \<open>Inl\<close> is \<open>error\<close> set and \<open>break\<close>.
\<close>

definition load_step :: "string \<Rightarrow> uint \<Rightarrow> uint \<Rightarrow> uint \<Rightarrow> load_state \<Rightarrow> error + load_state" where
  "load_step cs max_vertices max_normals max_indices s =
     (let last_char = cs ! (current_char_offset s - 1);
          current_char = cs ! current_char_offset s
      in
      if last_char = CHR ''v'' \<and> current_char = CHR '' '' then
        (let parsed = parsed_vertices s + 1 in
         if parsed > max_vertices then Inl ExceededVertices
         else
           let x_offset = vertex_offset s; y_offset = x_offset + 1; z_offset = y_offset + 1 in
           case n3dc_obj_parse_obj_vec3 cs (current_char_offset s + 1) of
             Inl e \<Rightarrow> Inl e
           | Inr (line_end, x, y, z) \<Rightarrow>
               bind_error (store (vertices s) x_offset x) (\<lambda>v1.
               bind_error (store v1 y_offset y) (\<lambda>v2.
               bind_error (store v2 z_offset z) (\<lambda>v3.
               Inr (s\<lparr>current_char_offset := line_end + 2, vertices := v3,
                       vertex_offset := z_offset + 1, parsed_vertices := parsed\<rparr>)))))
      else if last_char = CHR ''v'' \<and> current_char = CHR ''t'' then
        (let parsed = parsed_texture_coords s + 1 in
         if parsed > max_indices then Inl ExceededTextureCoords
         else
           let x_offset = texture_coord_offset s; y_offset = x_offset + 1 in
           case n3dc_obj_parse_obj_vec2 cs (current_char_offset s + 2) of
             Inl e \<Rightarrow> Inl e
           | Inr (line_end, x, y) \<Rightarrow>
               bind_error (store (texture_coords s) x_offset x) (\<lambda>t1.
               bind_error (store t1 y_offset y) (\<lambda>t2.
               Inr (s\<lparr>current_char_offset := line_end + 2, texture_coords := t2,
                       texture_coord_offset := y_offset + 1, parsed_texture_coords := parsed\<rparr>))))
      else if last_char = CHR ''v'' \<and> current_char = CHR ''n'' then
        (let parsed = parsed_normals s + 1 in
         if parsed > max_normals then Inl ExceededNormals
         else
           let x_offset = normal_offset s; y_offset = x_offset + 1; z_offset = y_offset + 1 in
           case n3dc_obj_parse_obj_vec3 cs (current_char_offset s + 2) of
             Inl e \<Rightarrow> Inl e
           | Inr (line_end, x, y, z) \<Rightarrow>
               bind_error (store (normals s) x_offset x) (\<lambda>n1.
               bind_error (store n1 y_offset y) (\<lambda>n2.
               bind_error (store n2 z_offset z) (\<lambda>n3.
               Inr (s\<lparr>current_char_offset := line_end + 2, normals := n3,
                       normal_offset := z_offset + 1, parsed_normals := parsed\<rparr>)))))
      else if last_char = CHR ''f'' \<and> current_char = CHR '' '' then
        (let parsed = parsed_indices s + 3 in
         if parsed > max_indices then Inl ExceededIndices
         else
           let group_1_offset = index_offset s; group_2_offset = group_1_offset + 1;
               group_3_offset = group_2_offset + 1 in
           case n3dc_obj_parse_obj_face cs (current_char_offset s) of
             Inl e \<Rightarrow> Inl e
           | Inr (line_end, (v1, t1, n1), (v2, t2, n2), (w_v, w_t, w_n)) \<Rightarrow>
               bind_error (store_face (vertex_indices s) group_1_offset group_2_offset group_3_offset v1 v2 w_v) (\<lambda>vi.
               bind_error (store_face (texture_indices s) group_1_offset group_2_offset group_3_offset t1 t2 w_t) (\<lambda>ti.
               bind_error (store_face (normal_indices s) group_1_offset group_2_offset group_3_offset n1 n2 w_n) (\<lambda>ni.
               Inr (s\<lparr>current_char_offset := line_end + 2,
                       vertex_indices := vi, texture_indices := ti, normal_indices := ni,
                       parsed_indices := parsed, index_offset := group_3_offset + 1\<rparr>)))))
      else
        (case n3dc_obj_seek_end_of_line cs (current_char_offset s) of
           Inl e \<Rightarrow> Inl e
         | Inr line_end \<Rightarrow> Inr (s\<lparr>current_char_offset := line_end + 2\<rparr>)))"

lemma load_step_advances:
  "load_step cs max_vertices max_normals max_indices s = Inr s'
     \<Longrightarrow> current_char_offset s < current_char_offset s'"
  unfolding load_step_def Let_def bind_error_def
  by (auto split: if_splits sum.splits prod.splits
           dest!: vec3_end vec2_end face_end seek_end)

function n3dc_obj_load_loop :: "string \<Rightarrow> uint \<Rightarrow> uint \<Rightarrow> uint \<Rightarrow> load_state \<Rightarrow> error + load_state" where
  "n3dc_obj_load_loop cs max_vertices max_normals max_indices s =
     (if current_char_offset s < length cs then
        (case load_step cs max_vertices max_normals max_indices s of
           Inl e \<Rightarrow> Inl e
         | Inr s' \<Rightarrow> n3dc_obj_load_loop cs max_vertices max_normals max_indices s')
      else Inr s)"
  by pat_completeness auto

termination
proof (relation "measure (\<lambda>(cs, max_vertices, max_normals, max_indices, s).
                   length cs - current_char_offset s)")
  show "wf (measure (\<lambda>(cs, max_vertices, max_normals, max_indices, s :: load_state).
                   length cs - current_char_offset s))"
    by simp
next
  fix cs :: string and max_vertices max_normals max_indices :: uint and s s' :: load_state
  assume "current_char_offset s < length cs"
    and "load_step cs max_vertices max_normals max_indices s = Inr s'"
  then show "((cs, max_vertices, max_normals, max_indices, s'), (cs, max_vertices, max_normals, max_indices, s))
     \<in> measure (\<lambda>(cs, max_vertices, max_normals, max_indices, s). length cs - current_char_offset s)"
    using load_step_advances [of cs max_vertices max_normals max_indices s s'] by simp
qed

declare n3dc_obj_load_loop.simps [simp del]

subsection \<open>Resolver\<close>

text \<open>A read \<open>xs[i]\<close> of a pool; the value read may be one that nobody wrote.\<close>

definition pool_read :: "rat option list \<Rightarrow> uint \<Rightarrow> error + rat option" where
  "pool_read xs i = (if unat i < length xs then Inr (xs ! unat i) else Inl OutOfBoundsRead)"

text \<open>A read of an index that is then used as an offset.\<close>

definition index_read :: "uint option list \<Rightarrow> nat \<Rightarrow> error + uint" where
  "index_read xs i =
     (if i < length xs then (case xs ! i of None \<Rightarrow> Inl IndeterminateIndex | Some v \<Rightarrow> Inr v)
      else Inl OutOfBoundsRead)"

text \<open>
  The reads of one pass of the last \<open>for\<close> loop: the three floats of the position, the
  two of the texture coordinate and the three of the normal of corner \<open>i\<close>. The offsets
  are \<open>unsigned int\<close> products and sums.
\<close>

definition resolve_corner :: "load_state \<Rightarrow> nat
    \<Rightarrow> error + (rat option list \<times> rat option list \<times> rat option list)" where
  "resolve_corner s i =
     bind_error (index_read (vertex_indices s) i) (\<lambda>vertex_index.
     let vertex_offset = vertex_index * 3 in
     bind_error (pool_read (vertices s) vertex_offset) (\<lambda>x.
     bind_error (pool_read (vertices s) (vertex_offset + 1)) (\<lambda>y.
     bind_error (pool_read (vertices s) (vertex_offset + 2)) (\<lambda>z.
     bind_error (index_read (texture_indices s) i) (\<lambda>texture_index.
     let texture_coord_offset = texture_index * 2 in
     bind_error (pool_read (texture_coords s) texture_coord_offset) (\<lambda>tu.
     bind_error (pool_read (texture_coords s) (texture_coord_offset + 1)) (\<lambda>tv.
     bind_error (index_read (normal_indices s) i) (\<lambda>normal_index.
     let normal_offset = normal_index * 3 in
     bind_error (pool_read (normals s) normal_offset) (\<lambda>nx.
     bind_error (pool_read (normals s) (normal_offset + 1)) (\<lambda>ny.
     bind_error (pool_read (normals s) (normal_offset + 2)) (\<lambda>nz.
     Inr ([x, y, z], [tu, tv], [nx, ny, nz]))))))))))))"

text \<open>
  The last \<open>for\<close> loop: corner \<open>i\<close> is written at \<open>i * 3\<close> (positions and normals) and
  \<open>i * 2\<close> (texture coordinates) of the three output arrays.
\<close>

function resolve_loop :: "load_state \<Rightarrow> nat \<Rightarrow> rat option list \<Rightarrow> rat option list \<Rightarrow> rat option list
    \<Rightarrow> error + (rat option list \<times> rat option list \<times> rat option list)" where
  "resolve_loop s i ordered_vertices ordered_texture_coords ordered_normals =
     (if i < unat (parsed_indices s) then
        (case resolve_corner s i of
           Inl e \<Rightarrow> Inl e
         | Inr (p, t, n) \<Rightarrow>
             resolve_loop s (i + 1)
               (ordered_vertices[i * 3 := p ! 0, i * 3 + 1 := p ! 1, i * 3 + 2 := p ! 2])
               (ordered_texture_coords[i * 2 := t ! 0, i * 2 + 1 := t ! 1])
               (ordered_normals[i * 3 := n ! 0, i * 3 + 1 := n ! 1, i * 3 + 2 := n ! 2]))
      else Inr (ordered_vertices, ordered_texture_coords, ordered_normals))"
  by pat_completeness auto

termination
  by (relation "measure (\<lambda>(s, i, rest). unat (parsed_indices s) - i)") auto

declare resolve_loop.simps [simp del]

subsection \<open>The load operation\<close>

record n3dc_obj_t =
  num_vertices :: uint
  vertices :: "rat option list"
  normals :: "rat option list"
  texture_coords :: "rat option list"

text \<open>The locals of \<open>n3dc_obj_load\<close> before the loop: the cursor is 1, the buffers are fresh.\<close>

definition initial_state :: "uint \<Rightarrow> uint \<Rightarrow> uint \<Rightarrow> load_state" where
  "initial_state max_vertices max_normals max_indices =
     \<lparr>current_char_offset = 1,
      vertices = replicate (unat max_vertices * 3) None,
      vertex_offset = 0,
      parsed_vertices = 0,
      texture_coords = replicate (unat max_indices * 2) None,
      texture_coord_offset = 0,
      parsed_texture_coords = 0,
      normals = replicate (unat max_normals * 3) None,
      normal_offset = 0,
      parsed_normals = 0,
      vertex_indices = replicate (unat max_indices) None,
      texture_indices = replicate (unat max_indices) None,
      normal_indices = replicate (unat max_indices) None,
      parsed_indices = 0,
      index_offset = 0\<rparr>"

text \<open>
  \<open>n3dc_obj_load\<close> on the contents \<open>cs\<close> of the file. \<open>Inl\<close> is the \<open>NULL\<close> result, with
  the diagnosis that was printed, or an execution that the C standard leaves undefined.
  The \<open>int i\<close> of the last loop and its product \<open>i * 3\<close> stay below \<open>2 ^ 31\<close> as long as
  there are at most 715827883 corners.
\<close>

definition n3dc_obj_load :: "string \<Rightarrow> uint \<Rightarrow> uint \<Rightarrow> uint \<Rightarrow> error + n3dc_obj_t" where
  "n3dc_obj_load cs max_vertices max_normals max_indices =
     (case n3dc_obj_load_loop cs max_vertices max_normals max_indices
             (initial_state max_vertices max_normals max_indices) of
        Inl e \<Rightarrow> Inl e
      | Inr s \<Rightarrow>
          if 715827883 < parsed_indices s then Inl SignedOverflow
          else
            (case resolve_loop s 0
                    (replicate (unat (parsed_indices s) * 3) None)
                    (replicate (unat (parsed_indices s) * 2) None)
                    (replicate (unat (parsed_indices s) * 3) None) of
               Inl e \<Rightarrow> Inl e
             | Inr (ordered_vertices, ordered_texture_coords, ordered_normals) \<Rightarrow>
                 Inr \<lparr>num_vertices = parsed_indices s,
                      vertices = ordered_vertices,
                      normals = ordered_normals,
                      texture_coords = ordered_texture_coords\<rparr>))"

section \<open>Notions for the claims\<close>

subsection \<open>Values that binary32 holds exactly\<close>

text \<open>
  A rational \<open>p / 2 ^ k\<close> with \<open>\<bar>p\<bar> < 2 ^ 24\<close> and \<open>k \<le> 149\<close> is a binary32 value, so the
  rounding of \<open>(float)atof(...)\<close> leaves it as it is.
\<close>

fun power_of_two_upto :: "nat \<Rightarrow> int \<Rightarrow> bool" where
  "power_of_two_upto 0 q = (q = 1)"
| "power_of_two_upto (Suc k) q = (q = 1 \<or> (q mod 2 = 0 \<and> power_of_two_upto k (q div 2)))"

definition binary32_exact :: "rat \<Rightarrow> bool" where
  "binary32_exact r =
     (case quotient_of r of (p, q) \<Rightarrow> \<bar>p\<bar> < 2 ^ 24 \<and> power_of_two_upto 149 q)"

subsection \<open>States that the driver reaches\<close>

text \<open>
  \<open>driver_reaches cs \<dots> s s'\<close>: the loop, started in \<open>s\<close>, comes to its test in state
  \<open>s'\<close>. \<open>driver_at cs \<dots> s\<close>: \<open>n3dc_obj_load\<close> on \<open>cs\<close> comes to the test in \<open>s\<close>.
\<close>

inductive driver_reaches :: "string \<Rightarrow> uint \<Rightarrow> uint \<Rightarrow> uint \<Rightarrow> load_state \<Rightarrow> load_state \<Rightarrow> bool"
  for cs max_vertices max_normals max_indices where
    start: "driver_reaches cs max_vertices max_normals max_indices s s"
  | step: "driver_reaches cs max_vertices max_normals max_indices s s'
          \<Longrightarrow> current_char_offset s' < length cs
          \<Longrightarrow> load_step cs max_vertices max_normals max_indices s' = Inr s''
          \<Longrightarrow> driver_reaches cs max_vertices max_normals max_indices s s''"

definition driver_at :: "string \<Rightarrow> uint \<Rightarrow> uint \<Rightarrow> uint \<Rightarrow> load_state \<Rightarrow> bool" where
  "driver_at cs max_vertices max_normals max_indices s =
     driver_reaches cs max_vertices max_normals max_indices
       (initial_state max_vertices max_normals max_indices) s"

text \<open>
  \<open>records_read tag cs \<dots> s n\<close>: \<open>n3dc_obj_load\<close> on \<open>cs\<close> comes to the test of its loop
  in state \<open>s\<close>, after \<open>n\<close> passes that started at a record with the tag \<open>tag\<close>.
\<close>

definition position_tag_at :: "string \<Rightarrow> nat \<Rightarrow> bool" where
  "position_tag_at cs p = (cs ! p = CHR ''v'' \<and> cs ! (p + 1) = CHR '' '')"

definition texture_tag_at :: "string \<Rightarrow> nat \<Rightarrow> bool" where
  "texture_tag_at cs p = (cs ! p = CHR ''v'' \<and> cs ! (p + 1) = CHR ''t'')"

inductive records_read ::
  "(string \<Rightarrow> nat \<Rightarrow> bool) \<Rightarrow> string \<Rightarrow> uint \<Rightarrow> uint \<Rightarrow> uint \<Rightarrow> load_state \<Rightarrow> nat \<Rightarrow> bool"
  for tag cs max_vertices max_normals max_indices where
    start: "records_read tag cs max_vertices max_normals max_indices
              (initial_state max_vertices max_normals max_indices) 0"
  | step: "records_read tag cs max_vertices max_normals max_indices s n
          \<Longrightarrow> current_char_offset s < length cs
          \<Longrightarrow> load_step cs max_vertices max_normals max_indices s = Inr s'
          \<Longrightarrow> records_read tag cs max_vertices max_normals max_indices s'
                (if tag cs (current_char_offset s - 1) then n + 1 else n)"

code_pred driver_reaches .

code_pred records_read .

subsection \<open>Invalid characters in vector records\<close>

text \<open>
  \<open>invalid_in_record cs record_start j\<close>: the character at \<open>j\<close> is none that a vector
  record may hold, and no newline stands between the start of the record and \<open>j\<close>.
\<close>

definition invalid_in_record :: "string \<Rightarrow> nat \<Rightarrow> nat \<Rightarrow> bool" where
  "invalid_in_record cs record_start j =
     (record_start \<le> j \<and> j < length cs
      \<and> newline \<notin> set (take (j - record_start) (drop record_start cs))
      \<and> cs ! j \<noteq> CHR '' '' \<and> cs ! j \<noteq> newline \<and> \<not> n3dc_obj_is_valid_vec_char (cs ! j))"

subsection \<open>Lines\<close>

text \<open>
  A line starts at the beginning of the file and behind every newline. A line that
  begins with one of the four tags of the driver is a record line.
\<close>

definition line_start :: "string \<Rightarrow> nat \<Rightarrow> bool" where
  "line_start cs p = (p = 0 \<or> cs ! (p - 1) = newline)"

definition record_tag_at :: "string \<Rightarrow> nat \<Rightarrow> bool" where
  "record_tag_at cs p =
     ((cs ! p = CHR ''v'' \<and> (cs ! (p + 1) = CHR '' '' \<or> cs ! (p + 1) = CHR ''t'' \<or> cs ! (p + 1) = CHR ''n''))
      \<or> (cs ! p = CHR ''f'' \<and> cs ! (p + 1) = CHR '' ''))"

definition no_record_lines :: "string \<Rightarrow> bool" where
  "no_record_lines cs =
     list_all (\<lambda>p. line_start cs p \<longrightarrow> \<not> record_tag_at cs p) [0..<length cs - 1]"

definition newline_terminated :: "string \<Rightarrow> bool" where
  "newline_terminated cs = (cs = [] \<or> last cs = newline)"

subsection \<open>Face lines and the corner count\<close>

text \<open>
  The face lines of a file are the lines that begin with \<open>f \<close>. A file is well formed
  when no line is blank, the tags \<open>vt\<close> and \<open>vn\<close> are followed by a space, and every face
  line is a face record that the face scanner reads to the newline of its own line.
  (At a blank line the cursor of the driver, one behind the start of the line, is
  already on the first character of the next line, and the skip takes that line too.)
\<close>

definition face_tag_at :: "string \<Rightarrow> nat \<Rightarrow> bool" where
  "face_tag_at cs p = (cs ! p = CHR ''f'' \<and> cs ! (p + 1) = CHR '' '')"

definition faces_from :: "string \<Rightarrow> nat \<Rightarrow> nat" where
  "faces_from cs a =
     length (filter (\<lambda>p. line_start cs p \<and> face_tag_at cs p) [a..<length cs - 1])"

definition face_line_count :: "string \<Rightarrow> nat" where
  "face_line_count cs = faces_from cs 0"

definition well_formed_line :: "string \<Rightarrow> nat \<Rightarrow> bool" where
  "well_formed_line cs p =
     (cs ! p \<noteq> newline
      \<and> (cs ! p = CHR ''v'' \<and> (cs ! (p + 1) = CHR ''t'' \<or> cs ! (p + 1) = CHR ''n'')
           \<longrightarrow> p + 2 < length cs \<and> cs ! (p + 2) = CHR '' '')
      \<and> (face_tag_at cs p \<longrightarrow>
           (case n3dc_obj_parse_obj_face cs (p + 1) of
              Inl e \<Rightarrow> False
            | Inr (line_end, r) \<Rightarrow> newline \<notin> set (take (line_end - p) (drop p cs)))))"

definition well_formed :: "string \<Rightarrow> bool" where
  "well_formed cs =
     list_all (\<lambda>p. line_start cs p \<longrightarrow> well_formed_line cs p) [0..<length cs - 1]"

text \<open>
  What the driver needs to come to every line of a file: no line is blank, the tags
  \<open>vt\<close> and \<open>vn\<close> are followed by one more character on the line (the driver steps over
  it without a look), and a face record that the face scanner reads ends at the newline
  of its own line.
\<close>

definition line_kept :: "string \<Rightarrow> nat \<Rightarrow> bool" where
  "line_kept cs p =
     (cs ! p \<noteq> newline
      \<and> (cs ! p = CHR ''v'' \<and> (cs ! (p + 1) = CHR ''t'' \<or> cs ! (p + 1) = CHR ''n'')
           \<longrightarrow> p + 2 < length cs \<and> cs ! (p + 2) \<noteq> newline)
      \<and> (face_tag_at cs p \<longrightarrow>
           (case n3dc_obj_parse_obj_face cs (p + 1) of
              Inl e \<Rightarrow> True
            | Inr (line_end, r) \<Rightarrow> newline \<notin> set (take (line_end - p) (drop p cs)))))"

definition lines_kept :: "string \<Rightarrow> bool" where
  "lines_kept cs =
     list_all (\<lambda>p. line_start cs p \<longrightarrow> line_kept cs p) [0..<length cs - 1]"

subsection \<open>Position and texture lines\<close>

text \<open>
  The lines of a file from the offset \<open>a\<close> on that begin with a tag; the position lines
  begin with \<open>v \<close>, the texture lines with \<open>vt\<close>.
\<close>

definition tagged_lines_from :: "(string \<Rightarrow> nat \<Rightarrow> bool) \<Rightarrow> string \<Rightarrow> nat \<Rightarrow> nat" where
  "tagged_lines_from tag cs a =
     length (filter (\<lambda>p. line_start cs p \<and> tag cs p) [a..<length cs - 1])"

definition position_line_count :: "string \<Rightarrow> nat" where
  "position_line_count cs = tagged_lines_from position_tag_at cs 0"

definition texture_line_count :: "string \<Rightarrow> nat" where
  "texture_line_count cs = tagged_lines_from texture_tag_at cs 0"

subsection \<open>Vector records and index fields\<close>

text \<open>
  The offset at which the driver starts the scan of the vector record on the line that
  starts at \<open>p\<close>: behind \<open>v \<close>, or behind the tag \<open>vt\<close> or \<open>vn\<close> and one more character.
\<close>

definition vector_fields_start :: "string \<Rightarrow> nat \<Rightarrow> nat option" where
  "vector_fields_start cs p =
     (if cs ! p = CHR ''v'' \<and> cs ! (p + 1) = CHR '' '' then Some (p + 2)
      else if cs ! p = CHR ''v'' \<and> (cs ! (p + 1) = CHR ''t'' \<or> cs ! (p + 1) = CHR ''n'')
      then Some (p + 3)
      else None)"

text \<open>
  \<open>field_reads cs a b d\<close>: the field of an index group between the offsets \<open>a\<close> and \<open>b\<close>
  (both excluded) begins with the at most 9 digits \<open>d\<close>, of a value that is not 0 as an
  \<open>unsigned int\<close>, goes on with a character that is no digit (or ends), and holds no
  slash, space or newline.
\<close>

definition field_reads :: "string \<Rightarrow> nat \<Rightarrow> nat \<Rightarrow> string \<Rightarrow> bool" where
  "field_reads cs a b d =
     (let field = take (b - a - 1) (drop (a + 1) cs) in
      d \<noteq> [] \<and> length d \<le> 9 \<and> list_all isdigit d
      \<and> take (length d) field = d
      \<and> (case drop (length d) field of [] \<Rightarrow> True | x # r \<Rightarrow> \<not> isdigit x)
      \<and> list_all (\<lambda>c. c \<noteq> CHR ''/'' \<and> c \<noteq> CHR '' '' \<and> c \<noteq> newline) field
      \<and> (word_of_int (digits_value 0 d) :: uint) \<noteq> 0)"

section \<open>Lemmas\<close>

subsection \<open>States that the driver reaches\<close>

lemma driver_at_initial:
  "driver_at cs max_vertices max_normals max_indices
     (initial_state max_vertices max_normals max_indices)"
  unfolding driver_at_def by (rule driver_reaches.start)

lemma driver_reaches_loop:
  "driver_reaches cs mv mn mi s s'
     \<Longrightarrow> n3dc_obj_load_loop cs mv mn mi s = n3dc_obj_load_loop cs mv mn mi s'"
proof (induction rule: driver_reaches.induct)
  case (start s)
  show ?case by simp
next
  case (step s s' s'')
  have "n3dc_obj_load_loop cs mv mn mi s' = n3dc_obj_load_loop cs mv mn mi s''"
    using step.hyps(2,3) by (subst n3dc_obj_load_loop.simps) simp
  with step.IH show ?case by simp
qed

lemma load_fails_at:
  assumes "driver_at cs mv mn mi s" and "n3dc_obj_load_loop cs mv mn mi s = Inl e"
  shows "n3dc_obj_load cs mv mn mi = Inl e"
  using driver_reaches_loop [OF assms(1)[unfolded driver_at_def]] assms(2)
  by (simp add: n3dc_obj_load_def)

lemma load_loop_step_error:
  assumes "current_char_offset s < length cs" and "load_step cs mv mn mi s = Inl e"
  shows "n3dc_obj_load_loop cs mv mn mi s = Inl e"
  using assms by (subst n3dc_obj_load_loop.simps) simp

subsection \<open>The characters that the converter reads\<close>

lemma string_section_take:
  assumes "start \<le> end" and "end - start < 2 ^ 32"
  shows "string_section start end cs = take (min (end - start) 10) (drop start cs)"
proof -
  have eq: "(word_of_int (int end - int start) :: uint) = of_nat (end - start)"
    using assms(1) by (simp add: of_nat_diff)
  have un: "unat (of_nat (end - start) :: uint) = end - start"
    using assms(2) by (simp add: unat_of_nat)
  have m: "unat (n3dc_obj_min_uint (of_nat (end - start)) 10) = min (end - start) 10"
    using un by (auto simp: n3dc_obj_min_uint_def word_less_nat_alt)
  have "string_section start end cs
          = take (unat (n3dc_obj_min_uint (word_of_int (int end - int start)) 10)) (drop start cs)"
    by (simp only: string_section_def Let_def)
  also have "\<dots> = take (min (end - start) 10) (drop start cs)"
    by (simp only: eq m)
  finally show ?thesis .
qed

subsection \<open>Index translation\<close>

lemma index_group_convert_translates:
  assumes "index_group_convert cs st ve te ne = Inr (e, (v, t, n))"
  shows "e = ne
       \<and> n3dc_obj_string_section_to_uint st ve cs \<noteq> 0
       \<and> n3dc_obj_string_section_to_uint (ve + 1) te cs \<noteq> 0
       \<and> n3dc_obj_string_section_to_uint (te + 1) ne cs \<noteq> 0
       \<and> v = n3dc_obj_string_section_to_uint st ve cs - 1
       \<and> t = n3dc_obj_string_section_to_uint (ve + 1) te cs - 1
       \<and> n = n3dc_obj_string_section_to_uint (te + 1) ne cs - 1"
  using assms by (auto simp: index_group_convert_def Let_def split: if_splits)

lemma index_group_loop_step:
  assumes "n3dc_obj_parse_obj_index_group_loop cs st i vp ve tp te = Inr r"
  shows "i < length cs \<and>
         ((\<exists>vp' ve' tp' te'. n3dc_obj_parse_obj_index_group_loop cs st (i + 1) vp' ve' tp' te' = Inr r)
          \<or> index_group_convert cs st ve te i = Inr r)"
  using assms
  by (subst (asm) n3dc_obj_parse_obj_index_group_loop.simps)
     (auto simp: Let_def split: if_splits)

lemma index_group_loop_translates:
  "n3dc_obj_parse_obj_index_group_loop cs st i vp ve tp te = Inr (e, g)
   \<Longrightarrow> \<exists>ve' te'. index_group_convert cs st ve' te' e = Inr (e, g)"
proof (induction "length cs - i" arbitrary: i vp ve tp te rule: less_induct)
  case less
  from index_group_loop_step [OF less.prems]
  have lt: "i < length cs"
    and alt: "(\<exists>vp' ve' tp' te'. n3dc_obj_parse_obj_index_group_loop cs st (i + 1) vp' ve' tp' te' = Inr (e, g))
          \<or> index_group_convert cs st ve te i = Inr (e, g)"
    by blast+
  from alt show ?case
  proof
    assume "\<exists>vp' ve' tp' te'. n3dc_obj_parse_obj_index_group_loop cs st (i + 1) vp' ve' tp' te' = Inr (e, g)"
    then obtain vp' ve' tp' te'
      where "n3dc_obj_parse_obj_index_group_loop cs st (i + 1) vp' ve' tp' te' = Inr (e, g)"
      by blast
    moreover have "length cs - (i + 1) < length cs - i" using lt by simp
    ultimately show ?thesis by (rule less.hyps[rotated])
  next
    assume c: "index_group_convert cs st ve te i = Inr (e, g)"
    then have "e = i" by (rule index_group_convert_end)
    with c show ?thesis by blast
  qed
qed

lemma index_group_translates:
  assumes "n3dc_obj_parse_obj_index_group cs st = Inr (e, (v, t, n))"
  shows "\<exists>ve te.
           n3dc_obj_string_section_to_uint st ve cs \<noteq> 0
         \<and> n3dc_obj_string_section_to_uint (ve + 1) te cs \<noteq> 0
         \<and> n3dc_obj_string_section_to_uint (te + 1) e cs \<noteq> 0
         \<and> v = n3dc_obj_string_section_to_uint st ve cs - 1
         \<and> t = n3dc_obj_string_section_to_uint (ve + 1) te cs - 1
         \<and> n = n3dc_obj_string_section_to_uint (te + 1) e cs - 1"
proof -
  from assms obtain ve te where "index_group_convert cs st ve te e = Inr (e, (v, t, n))"
    unfolding n3dc_obj_parse_obj_index_group_def
    by (blast dest: index_group_loop_translates)
  from index_group_convert_translates [OF this] show ?thesis by blast
qed

subsection \<open>The line skip never reports the end of the file\<close>

lemma seek_loop_step:
  assumes "start < length cs"
  shows "n3dc_obj_seek_end_of_line_loop cs start i = Inl e
     \<Longrightarrow> (i > length cs \<and> e = OutOfBoundsRead)
         \<or> (i \<le> length cs \<and> n3dc_obj_seek_end_of_line_loop cs start (i + 1) = Inl e)"
  using assms
  by (subst (asm) n3dc_obj_seek_end_of_line_loop.simps)
     (auto simp: file_char_def split: if_splits)

lemma seek_loop_never_reports:
  "start < length cs \<Longrightarrow> n3dc_obj_seek_end_of_line_loop cs start i = Inl e \<Longrightarrow> e = OutOfBoundsRead"
proof (induction "length cs + 1 - i" arbitrary: i rule: less_induct)
  case less
  from seek_loop_step [OF less.prems]
  consider "i > length cs \<and> e = OutOfBoundsRead"
    | "i \<le> length cs \<and> n3dc_obj_seek_end_of_line_loop cs start (i + 1) = Inl e"
    by blast
  then show ?case
  proof cases
    case 1
    then show ?thesis by simp
  next
    case 2
    then have "i \<le> length cs" by simp
    then have "length cs + 1 - (i + 1) < length cs + 1 - i" by arith
    from less.hyps [OF this less.prems(1)] 2 show ?thesis by simp
  qed
qed

subsection \<open>Counts and three groups\<close>

lemma records_read_driver_at:
  "records_read tag cs mv mn mi s n \<Longrightarrow> driver_at cs mv mn mi s \<and> 1 \<le> current_char_offset s"
proof (induction rule: records_read.induct)
  case start
  show ?case by (simp add: driver_at_initial) (simp add: initial_state_def)
next
  case (step s n s')
  from step.IH have "driver_at cs mv mn mi s" by simp
  then have "driver_at cs mv mn mi s'"
    unfolding driver_at_def using step.hyps(2,3) by (rule driver_reaches.step)
  moreover have "1 \<le> current_char_offset s'"
    using load_step_advances [OF step.hyps(3)] by simp
  ultimately show ?case by simp
qed

lemma load_step_parsed_vertices:
  assumes "load_step cs mv mn mi s = Inr s'" and "1 \<le> current_char_offset s"
  shows "parsed_vertices s' = parsed_vertices s
           + (if position_tag_at cs (current_char_offset s - 1) then 1 else 0)"
  using assms
  by (auto simp: load_step_def Let_def bind_error_def position_tag_at_def
           split: if_splits sum.splits prod.splits)

lemma load_step_parsed_texture_coords:
  assumes "load_step cs mv mn mi s = Inr s'" and "1 \<le> current_char_offset s"
  shows "parsed_texture_coords s' = parsed_texture_coords s
           + (if texture_tag_at cs (current_char_offset s - 1) then 1 else 0)"
  using assms
  by (auto simp: load_step_def Let_def bind_error_def texture_tag_at_def
           split: if_splits sum.splits prod.splits)

lemma position_records_counted:
  "records_read position_tag_at cs mv mn mi s n \<Longrightarrow> parsed_vertices s = of_nat n"
proof (induction rule: records_read.induct)
  case start
  show ?case by (simp add: initial_state_def)
next
  case (step s n s')
  from records_read_driver_at [OF step.hyps(1)] have "1 \<le> current_char_offset s" by simp
  from load_step_parsed_vertices [OF step.hyps(3) this] step.IH show ?case by simp
qed

lemma texture_records_counted:
  "records_read texture_tag_at cs mv mn mi s n \<Longrightarrow> parsed_texture_coords s = of_nat n"
proof (induction rule: records_read.induct)
  case start
  show ?case by (simp add: initial_state_def)
next
  case (step s n s')
  from records_read_driver_at [OF step.hyps(1)] have "1 \<le> current_char_offset s" by simp
  from load_step_parsed_texture_coords [OF step.hyps(3) this] step.IH show ?case by simp
qed

lemma word_succ_greater: "w \<noteq> - 1 \<Longrightarrow> w < w + 1" for w :: uint
  using inc_less_eq_self_iff_eq [of w] by (simp add: not_le)

lemma face_three_groups:
  assumes g1: "n3dc_obj_parse_obj_index_group cs st = Inr (end_1, g1)"
    and g2: "n3dc_obj_parse_obj_index_group cs end_1 = Inr (end_2, g2)"
    and g3: "n3dc_obj_parse_obj_index_group cs end_2 = Inr (end_3, (v, t, n))"
  shows "n3dc_obj_parse_obj_face cs st =
           (if cs ! end_3 \<noteq> newline then Inl NonTriangulated
            else Inr (end_3, g1, g2, (Some v, Some t, Some n)))"
proof -
  from index_group_end [OF g1] have l0: "st < length cs" and l1: "end_1 < length cs" by auto
  from index_group_end [OF g2] have l2: "end_2 < length cs" by auto
  have "n3dc_obj_parse_obj_face cs st = n3dc_obj_parse_obj_face_loop cs end_1 (Some g1) None"
    unfolding n3dc_obj_parse_obj_face_def
    using l0 g1 by (subst n3dc_obj_parse_obj_face_loop.simps) simp
  also have "\<dots> = n3dc_obj_parse_obj_face_loop cs end_2 (Some g1) (Some g2)"
    using l1 g2 by (subst n3dc_obj_parse_obj_face_loop.simps) simp
  also have "\<dots> = (if cs ! end_3 \<noteq> newline then Inl NonTriangulated
            else Inr (end_3, g1, g2, (Some v, Some t, Some n)))"
    using l2 g3 by (subst n3dc_obj_parse_obj_face_loop.simps) simp
  finally show ?thesis .
qed

text \<open>A load that goes on has read no more position records than \<open>max_vertices\<close>.\<close>

lemma position_records_within_capacity:
  assumes "max_vertices \<noteq> - 1"
  shows "records_read position_tag_at cs max_vertices mn mi s n \<Longrightarrow> n \<le> unat max_vertices"
proof (induction rule: records_read.induct)
  case start
  show ?case by simp
next
  case (step s n s')
  from records_read_driver_at [OF step.hyps(1)] have c: "1 \<le> current_char_offset s" by simp
  show ?case
  proof (cases "position_tag_at cs (current_char_offset s - 1)")
    case False
    with step.IH show ?thesis by simp
  next
    case True
    have p: "parsed_vertices s = of_nat n" by (rule position_records_counted [OF step.hyps(1)])
    from True c step.hyps(3) have le: "\<not> max_vertices < parsed_vertices s + 1"
      by (auto simp: load_step_def Let_def position_tag_at_def split: if_splits)
    have "n \<noteq> unat max_vertices"
    proof
      assume "n = unat max_vertices"
      with p have "parsed_vertices s = max_vertices" by simp
      with le word_succ_greater [OF assms] show False by simp
    qed
    with step.IH True show ?thesis by simp
  qed
qed

subsection \<open>Invalid characters in vector records\<close>

lemma no_newline_between:
  assumes "newline \<notin> set (take (j - i) (drop i cs))" and "i \<le> k" and "k < j" and "j \<le> length cs"
  shows "cs ! k \<noteq> newline"
proof -
  have "take (j - i) (drop i cs) ! (k - i) = cs ! k"
    using assms(2-4) by simp
  moreover have "k - i < length (take (j - i) (drop i cs))"
    using assms(2-4) by simp
  ultimately show ?thesis
    using assms(1) by (metis nth_mem)
qed

lemma vec3_loop_skip_eq:
  assumes "i < length cs" and "cs ! i \<noteq> newline"
  shows "n3dc_obj_parse_obj_vec3_loop cs st i xp xe yp ye =
          (if cs ! i = CHR '' '' then
             (if \<not> xp then n3dc_obj_parse_obj_vec3_loop cs st (i + 1) True i yp ye
              else if \<not> yp then n3dc_obj_parse_obj_vec3_loop cs st (i + 1) xp xe True i
              else n3dc_obj_parse_obj_vec3_loop cs st (i + 1) xp xe yp ye)
           else if \<not> n3dc_obj_is_valid_vec_char (cs ! i) then Inl (VecInvalidChar (cs ! i))
           else n3dc_obj_parse_obj_vec3_loop cs st (i + 1) xp xe yp ye)"
  using assms
  by (subst n3dc_obj_parse_obj_vec3_loop.simps) (simp add: Let_def)

lemma vec3_loop_skip:
  assumes "i < length cs" and "cs ! i \<noteq> newline"
  shows "(\<exists>c. n3dc_obj_parse_obj_vec3_loop cs st i xp xe yp ye = Inl (VecInvalidChar c))
       \<or> (\<exists>xp' xe' yp' ye'. n3dc_obj_parse_obj_vec3_loop cs st i xp xe yp ye
                             = n3dc_obj_parse_obj_vec3_loop cs st (i + 1) xp' xe' yp' ye')"
  unfolding vec3_loop_skip_eq [OF assms, of st xp xe yp ye]
  by (simp split: if_splits) blast

lemma vec3_loop_invalid:
  assumes "i \<le> j" and "j < length cs" and "\<forall>k. i \<le> k \<and> k < j \<longrightarrow> cs ! k \<noteq> newline"
    and "cs ! j \<noteq> CHR '' ''" and "cs ! j \<noteq> newline" and "\<not> n3dc_obj_is_valid_vec_char (cs ! j)"
  shows "\<exists>c. n3dc_obj_parse_obj_vec3_loop cs st i xp xe yp ye = Inl (VecInvalidChar c)"
  using assms(1,3)
proof (induction "j - i" arbitrary: i xp xe yp ye)
  case 0
  then have "i = j" by simp
  then show ?case
    using assms(2,4,5,6) by (subst n3dc_obj_parse_obj_vec3_loop.simps) (simp add: Let_def)
next
  case (Suc d)
  then have lt: "i < j" by simp
  then have "i < length cs" and "cs ! i \<noteq> newline" using assms(2) Suc.prems by auto
  from vec3_loop_skip [OF this, of st xp xe yp ye] show ?case
  proof
    assume "\<exists>c. n3dc_obj_parse_obj_vec3_loop cs st i xp xe yp ye = Inl (VecInvalidChar c)"
    then show ?thesis .
  next
    assume "\<exists>xp' xe' yp' ye'. n3dc_obj_parse_obj_vec3_loop cs st i xp xe yp ye
                             = n3dc_obj_parse_obj_vec3_loop cs st (i + 1) xp' xe' yp' ye'"
    then obtain xp' xe' yp' ye' where eq: "n3dc_obj_parse_obj_vec3_loop cs st i xp xe yp ye
                             = n3dc_obj_parse_obj_vec3_loop cs st (i + 1) xp' xe' yp' ye'" by blast
    have "d = j - (i + 1)" using Suc.hyps(2) by simp
    moreover have "i + 1 \<le> j" using lt by simp
    moreover have "\<forall>k. i + 1 \<le> k \<and> k < j \<longrightarrow> cs ! k \<noteq> newline" using Suc.prems(2) by simp
    ultimately have "\<exists>c. n3dc_obj_parse_obj_vec3_loop cs st (i + 1) xp' xe' yp' ye' = Inl (VecInvalidChar c)"
      by (rule Suc.hyps(1))
    with eq show ?thesis by simp
  qed
qed

lemma vec2_loop_skip_eq:
  assumes "i < length cs" and "cs ! i \<noteq> newline"
  shows "n3dc_obj_parse_obj_vec2_loop cs st i xp xe =
          (if cs ! i = CHR '' '' then n3dc_obj_parse_obj_vec2_loop cs st (i + 1) True i
           else if \<not> n3dc_obj_is_valid_vec_char (cs ! i) then Inl (TexInvalidChar (cs ! i))
           else n3dc_obj_parse_obj_vec2_loop cs st (i + 1) xp xe)"
  using assms
  by (subst n3dc_obj_parse_obj_vec2_loop.simps) (simp add: Let_def)

lemma vec2_loop_skip:
  assumes "i < length cs" and "cs ! i \<noteq> newline"
  shows "(\<exists>c. n3dc_obj_parse_obj_vec2_loop cs st i xp xe = Inl (TexInvalidChar c))
       \<or> (\<exists>xp' xe'. n3dc_obj_parse_obj_vec2_loop cs st i xp xe
                             = n3dc_obj_parse_obj_vec2_loop cs st (i + 1) xp' xe')"
  unfolding vec2_loop_skip_eq [OF assms, of st xp xe]
  by (simp split: if_splits) blast

lemma vec2_loop_invalid:
  assumes "i \<le> j" and "j < length cs" and "\<forall>k. i \<le> k \<and> k < j \<longrightarrow> cs ! k \<noteq> newline"
    and "cs ! j \<noteq> CHR '' ''" and "cs ! j \<noteq> newline" and "\<not> n3dc_obj_is_valid_vec_char (cs ! j)"
  shows "\<exists>c. n3dc_obj_parse_obj_vec2_loop cs st i xp xe = Inl (TexInvalidChar c)"
  using assms(1,3)
proof (induction "j - i" arbitrary: i xp xe)
  case 0
  then have "i = j" by simp
  then show ?case
    using assms(2,4,5,6) by (subst n3dc_obj_parse_obj_vec2_loop.simps) (simp add: Let_def)
next
  case (Suc d)
  then have lt: "i < j" by simp
  then have "i < length cs" and "cs ! i \<noteq> newline" using assms(2) Suc.prems by auto
  from vec2_loop_skip [OF this, of st xp xe] show ?case
  proof
    assume "\<exists>c. n3dc_obj_parse_obj_vec2_loop cs st i xp xe = Inl (TexInvalidChar c)"
    then show ?thesis .
  next
    assume "\<exists>xp' xe'. n3dc_obj_parse_obj_vec2_loop cs st i xp xe
                             = n3dc_obj_parse_obj_vec2_loop cs st (i + 1) xp' xe'"
    then obtain xp' xe' where eq: "n3dc_obj_parse_obj_vec2_loop cs st i xp xe
                             = n3dc_obj_parse_obj_vec2_loop cs st (i + 1) xp' xe'" by blast
    have "d = j - (i + 1)" using Suc.hyps(2) by simp
    moreover have "i + 1 \<le> j" using lt by simp
    moreover have "\<forall>k. i + 1 \<le> k \<and> k < j \<longrightarrow> cs ! k \<noteq> newline" using Suc.prems(2) by simp
    ultimately have "\<exists>c. n3dc_obj_parse_obj_vec2_loop cs st (i + 1) xp' xe' = Inl (TexInvalidChar c)"
      by (rule Suc.hyps(1))
    with eq show ?thesis by simp
  qed
qed

lemma vec3_invalid:
  assumes "invalid_in_record cs st j"
  shows "\<exists>c. n3dc_obj_parse_obj_vec3 cs st = Inl (VecInvalidChar c)"
proof -
  from assms have a: "st \<le> j" "j < length cs"
    "newline \<notin> set (take (j - st) (drop st cs))"
    "cs ! j \<noteq> CHR '' ''" "cs ! j \<noteq> newline" "\<not> n3dc_obj_is_valid_vec_char (cs ! j)"
    by (simp_all add: invalid_in_record_def)
  have "\<forall>k. st \<le> k \<and> k < j \<longrightarrow> cs ! k \<noteq> newline"
    using no_newline_between [OF a(3)] a(2) by simp
  from vec3_loop_invalid [OF a(1,2) this a(4,5,6)] show ?thesis
    by (simp add: n3dc_obj_parse_obj_vec3_def)
qed

lemma vec2_invalid:
  assumes "invalid_in_record cs st j"
  shows "\<exists>c. n3dc_obj_parse_obj_vec2 cs st = Inl (TexInvalidChar c)"
proof -
  from assms have a: "st \<le> j" "j < length cs"
    "newline \<notin> set (take (j - st) (drop st cs))"
    "cs ! j \<noteq> CHR '' ''" "cs ! j \<noteq> newline" "\<not> n3dc_obj_is_valid_vec_char (cs ! j)"
    by (simp_all add: invalid_in_record_def)
  have "\<forall>k. st \<le> k \<and> k < j \<longrightarrow> cs ! k \<noteq> newline"
    using no_newline_between [OF a(3)] a(2) by simp
  from vec2_loop_invalid [OF a(1,2) this a(4,5,6)] show ?thesis
    by (simp add: n3dc_obj_parse_obj_vec2_def)
qed

subsection \<open>What \<open>atoi\<close> reads of a field\<close>

lemma digits_value_prefix:
  "list_all isdigit ds \<Longrightarrow> \<not> isdigit x \<Longrightarrow> digits_value acc (ds @ x # rest) = digits_value acc ds"
  by (induction ds arbitrary: acc) simp_all

lemma isdigit_not_space_or_sign:
  "isdigit d \<Longrightarrow> \<not> isspace d \<and> d \<noteq> CHR ''-'' \<and> d \<noteq> CHR ''+''"
  by (auto simp: isdigit_def isspace_def)

lemma atoi_ignores_rest:
  assumes "ds \<noteq> []" and "list_all isdigit ds" and "\<not> isdigit x"
  shows "atoi (ds @ x # rest) = atoi ds"
proof -
  from assms(1) obtain d ds' where ds: "ds = d # ds'" by (cases ds) auto
  with assms(2) have d: "isdigit d" by simp
  from isdigit_not_space_or_sign [OF d] digits_value_prefix [OF assms(2,3), of 0 rest]
  show ?thesis by (simp add: atoi_def ds)
qed

lemma index_group_convert_fails_iff:
  "(\<exists>e w. index_group_convert cs st ve te ne = Inl (e, w))
     \<longleftrightarrow> (n3dc_obj_string_section_to_uint st ve cs = 0
          \<or> n3dc_obj_string_section_to_uint (ve + 1) te cs = 0
          \<or> n3dc_obj_string_section_to_uint (te + 1) ne cs = 0)"
  by (auto simp: index_group_convert_def Let_def)

subsection \<open>Lines\<close>

lemma seek_loop_finds:
  assumes "start < length cs" and "q < length cs" and "cs ! q = newline"
  shows "i \<le> q \<Longrightarrow> \<exists>le. n3dc_obj_seek_end_of_line_loop cs start i = Inr le
                      \<and> i \<le> le \<and> le \<le> q \<and> cs ! le = newline
                      \<and> (\<forall>k. i \<le> k \<and> k < le \<longrightarrow> cs ! k \<noteq> newline)"
proof (induction "q - i" arbitrary: i)
  case 0
  then have "i = q" by simp
  then show ?case
    using assms by (subst n3dc_obj_seek_end_of_line_loop.simps) (auto simp: file_char_def)
next
  case (Suc d)
  then have lt: "i < q" by simp
  show ?case
  proof (cases "cs ! i = newline")
    case True
    then show ?thesis
      using assms lt by (subst n3dc_obj_seek_end_of_line_loop.simps) (auto simp: file_char_def)
  next
    case False
    have "d = q - (i + 1)" using Suc.hyps(2) by simp
    moreover have "i + 1 \<le> q" using lt by simp
    ultimately obtain le where le: "n3dc_obj_seek_end_of_line_loop cs start (i + 1) = Inr le"
      "i + 1 \<le> le" "le \<le> q" "cs ! le = newline" "\<forall>k. i + 1 \<le> k \<and> k < le \<longrightarrow> cs ! k \<noteq> newline"
      using Suc.hyps(1) by blast
    have "n3dc_obj_seek_end_of_line_loop cs start i = n3dc_obj_seek_end_of_line_loop cs start (i + 1)"
      using assms lt False by (subst n3dc_obj_seek_end_of_line_loop.simps) (simp add: file_char_def)
    moreover have "\<forall>k. i \<le> k \<and> k < le \<longrightarrow> cs ! k \<noteq> newline"
    proof (intro allI impI)
      fix k assume "i \<le> k \<and> k < le"
      then show "cs ! k \<noteq> newline" using False le(5) by (cases "k = i") auto
    qed
    ultimately show ?thesis using le by auto
  qed
qed

lemma load_step_skips:
  assumes "1 \<le> current_char_offset s" and "current_char_offset s < length cs"
    and "\<not> record_tag_at cs (current_char_offset s - 1)"
    and "newline_terminated cs"
  shows "\<exists>le. load_step cs mv mn mi s = Inr (s\<lparr>current_char_offset := le + 2\<rparr>)
            \<and> current_char_offset s \<le> le \<and> cs ! le = newline"
proof -
  let ?c = "current_char_offset s"
  have ne: "cs \<noteq> []" using assms(2) by auto
  then have last: "cs ! (length cs - 1) = newline"
    using assms(4) by (simp add: newline_terminated_def last_conv_nth)
  have "?c \<le> length cs - 1" "length cs - 1 < length cs" using assms(2) by auto
  from seek_loop_finds [OF assms(2) this(2) last this(1)]
  obtain le where le: "n3dc_obj_seek_end_of_line cs ?c = Inr le" "?c \<le> le" "cs ! le = newline"
    by (auto simp: n3dc_obj_seek_end_of_line_def)
  have "?c - 1 + 1 = ?c" using assms(1) by simp
  with assms(3) have "load_step cs mv mn mi s = Inr (s\<lparr>current_char_offset := le + 2\<rparr>)"
    using le(1) by (auto simp: load_step_def Let_def record_tag_at_def)
  with le show ?thesis by blast
qed

lemma load_loop_skips_all:
  assumes "newline_terminated cs"
    and "\<forall>p. p + 1 < length cs \<and> line_start cs p \<longrightarrow> \<not> record_tag_at cs p"
  shows "1 \<le> current_char_offset s \<Longrightarrow> line_start cs (current_char_offset s - 1)
    \<Longrightarrow> \<exists>c. n3dc_obj_load_loop cs mv mn mi s = Inr (s\<lparr>current_char_offset := c\<rparr>)"
proof (induction "length cs - current_char_offset s" arbitrary: s rule: less_induct)
  case less
  let ?c = "current_char_offset s"
  show ?case
  proof (cases "?c < length cs")
    case False
    then have "n3dc_obj_load_loop cs mv mn mi s = Inr (s\<lparr>current_char_offset := ?c\<rparr>)"
      by (subst n3dc_obj_load_loop.simps) simp
    then show ?thesis by blast
  next
    case True
    have "?c - 1 + 1 < length cs" using True less.prems(1) by simp
    with assms(2) less.prems(2) have nt: "\<not> record_tag_at cs (?c - 1)" by blast
    from load_step_skips [OF less.prems(1) True nt assms(1), of mv mn mi]
    obtain le where le: "load_step cs mv mn mi s = Inr (s\<lparr>current_char_offset := le + 2\<rparr>)"
      "?c \<le> le" "cs ! le = newline" by blast
    let ?s' = "s\<lparr>current_char_offset := le + 2\<rparr>"
    have m: "length cs - current_char_offset ?s' < length cs - ?c" using True le(2) by simp
    have "1 \<le> current_char_offset ?s'" by simp
    moreover have "line_start cs (current_char_offset ?s' - 1)"
      using le(3) by (simp add: line_start_def)
    ultimately obtain c where "n3dc_obj_load_loop cs mv mn mi ?s' = Inr (?s'\<lparr>current_char_offset := c\<rparr>)"
      using less.hyps [OF m] by blast
    moreover have "n3dc_obj_load_loop cs mv mn mi s = n3dc_obj_load_loop cs mv mn mi ?s'"
      using True le(1) by (subst n3dc_obj_load_loop.simps) simp
    ultimately have "n3dc_obj_load_loop cs mv mn mi s = Inr (s\<lparr>current_char_offset := c\<rparr>)"
      by simp
    then show ?thesis by blast
  qed
qed

lemma no_record_lines_iff:
  "no_record_lines cs \<longleftrightarrow> (\<forall>p. p + 1 < length cs \<and> line_start cs p \<longrightarrow> \<not> record_tag_at cs p)"
  by (auto simp: no_record_lines_def list_all_iff)

subsection \<open>Face lines and the corner count\<close>

lemma well_formed_iff:
  "well_formed cs \<longleftrightarrow> (\<forall>p. p + 1 < length cs \<and> line_start cs p \<longrightarrow> well_formed_line cs p)"
  by (auto simp: well_formed_def list_all_iff)

lemma vec3_loop_first_newline:
  "n3dc_obj_parse_obj_vec3_loop cs st i xp xe yp ye = Inr (line_end, v)
     \<Longrightarrow> cs ! line_end = newline \<and> (\<forall>k. i \<le> k \<and> k < line_end \<longrightarrow> cs ! k \<noteq> newline)"
proof (induction "length cs - i" arbitrary: i xp xe yp ye rule: less_induct)
  case less
  from less.prems have lt: "i < length cs"
    by (subst (asm) n3dc_obj_parse_obj_vec3_loop.simps) (simp split: if_splits)
  show ?case
  proof (cases "cs ! i = newline")
    case True
    with less.prems lt have "line_end = i"
      by (subst (asm) n3dc_obj_parse_obj_vec3_loop.simps) (auto simp: Let_def split: if_splits)
    with True show ?thesis by auto
  next
    case False
    from vec3_loop_skip [OF lt False, of st xp xe yp ye] less.prems
    obtain xp' xe' yp' ye' where
      eq: "n3dc_obj_parse_obj_vec3_loop cs st (i + 1) xp' xe' yp' ye' = Inr (line_end, v)"
      by auto
    have "length cs - (i + 1) < length cs - i" using lt by simp
    from less.hyps [OF this eq] have
      r: "cs ! line_end = newline" "\<forall>k. i + 1 \<le> k \<and> k < line_end \<longrightarrow> cs ! k \<noteq> newline" by auto
    have "\<forall>k. i \<le> k \<and> k < line_end \<longrightarrow> cs ! k \<noteq> newline"
    proof (intro allI impI)
      fix k assume "i \<le> k \<and> k < line_end"
      then show "cs ! k \<noteq> newline" using False r(2) by (cases "k = i") auto
    qed
    with r(1) show ?thesis by simp
  qed
qed

lemma vec2_loop_first_newline:
  "n3dc_obj_parse_obj_vec2_loop cs st i xp xe = Inr (line_end, v)
     \<Longrightarrow> cs ! line_end = newline \<and> (\<forall>k. i \<le> k \<and> k < line_end \<longrightarrow> cs ! k \<noteq> newline)"
proof (induction "length cs - i" arbitrary: i xp xe rule: less_induct)
  case less
  from less.prems have lt: "i < length cs"
    by (subst (asm) n3dc_obj_parse_obj_vec2_loop.simps) (simp split: if_splits)
  show ?case
  proof (cases "cs ! i = newline")
    case True
    with less.prems lt have "line_end = i"
      by (subst (asm) n3dc_obj_parse_obj_vec2_loop.simps) (auto simp: Let_def split: if_splits)
    with True show ?thesis by auto
  next
    case False
    from vec2_loop_skip [OF lt False, of st xp xe] less.prems
    obtain xp' xe' where
      eq: "n3dc_obj_parse_obj_vec2_loop cs st (i + 1) xp' xe' = Inr (line_end, v)"
      by auto
    have "length cs - (i + 1) < length cs - i" using lt by simp
    from less.hyps [OF this eq] have
      r: "cs ! line_end = newline" "\<forall>k. i + 1 \<le> k \<and> k < line_end \<longrightarrow> cs ! k \<noteq> newline" by auto
    have "\<forall>k. i \<le> k \<and> k < line_end \<longrightarrow> cs ! k \<noteq> newline"
    proof (intro allI impI)
      fix k assume "i \<le> k \<and> k < line_end"
      then show "cs ! k \<noteq> newline" using False r(2) by (cases "k = i") auto
    qed
    with r(1) show ?thesis by simp
  qed
qed

lemma seek_loop_first_newline:
  "n3dc_obj_seek_end_of_line_loop cs st i = Inr line_end
     \<Longrightarrow> line_end < length cs \<and> cs ! line_end = newline
         \<and> (\<forall>k. i \<le> k \<and> k < line_end \<longrightarrow> cs ! k \<noteq> newline)"
proof (induction "length cs + 1 - i" arbitrary: i rule: less_induct)
  case less
  from less.prems have st: "st < length cs" and le: "i \<le> length cs"
    by (subst (asm) n3dc_obj_seek_end_of_line_loop.simps,
        simp add: file_char_def split: if_splits option.splits)+
  show ?case
  proof (cases "i < length cs \<and> cs ! i = newline")
    case True
    with less.prems st have "line_end = i"
      by (subst (asm) n3dc_obj_seek_end_of_line_loop.simps) (simp add: file_char_def)
    with True show ?thesis by auto
  next
    case False
    with less.prems st le
    have eq: "n3dc_obj_seek_end_of_line_loop cs st (i + 1) = Inr line_end"
      by (subst (asm) n3dc_obj_seek_end_of_line_loop.simps)
         (auto simp: file_char_def split: if_splits)
    have "length cs + 1 - (i + 1) < length cs + 1 - i" using le by arith
    from less.hyps [OF this eq] have
      r: "line_end < length cs" "cs ! line_end = newline"
         "\<forall>k. i + 1 \<le> k \<and> k < line_end \<longrightarrow> cs ! k \<noteq> newline" by auto
    have "\<forall>k. i \<le> k \<and> k < line_end \<longrightarrow> cs ! k \<noteq> newline"
    proof (intro allI impI)
      fix k assume k: "i \<le> k \<and> k < line_end"
      show "cs ! k \<noteq> newline"
      proof (cases "k = i")
        case True
        with k r(1) False show ?thesis by auto
      next
        case False
        with k r(3) show ?thesis by auto
      qed
    qed
    with r(1,2) show ?thesis by simp
  qed
qed

lemma face_loop_ends_at_newline:
  "n3dc_obj_parse_obj_face_loop cs off g1 g2 = Inr (line_end, r) \<Longrightarrow> cs ! line_end = newline"
proof (induction cs off g1 g2 rule: n3dc_obj_parse_obj_face_loop.induct)
  case (1 cs off g1 g2)
  from "1.prems" have lt: "off < length cs"
    by (subst (asm) n3dc_obj_parse_obj_face_loop.simps) (simp split: if_splits)
  show ?case
  proof (cases g1)
    case None
    with "1.prems" lt obtain e g where
      eg: "n3dc_obj_parse_obj_index_group cs off = Inr (e, g)"
      and rec: "n3dc_obj_parse_obj_face_loop cs e (Some g) g2 = Inr (line_end, r)"
      by (subst (asm) n3dc_obj_parse_obj_face_loop.simps) (auto split: sum.splits prod.splits)
    from "1.IH"(1) [OF lt None eg refl rec] show ?thesis .
  next
    case (Some a)
    note g1 = this
    show ?thesis
    proof (cases g2)
      case None
      with "1.prems" lt g1 obtain e g where
        eg: "n3dc_obj_parse_obj_index_group cs off = Inr (e, g)"
        and rec: "n3dc_obj_parse_obj_face_loop cs e g1 (Some g) = Inr (line_end, r)"
        by (subst (asm) n3dc_obj_parse_obj_face_loop.simps) (auto split: sum.splits prod.splits)
      from "1.IH"(2) [OF lt g1 None eg refl rec] show ?thesis .
    next
      case (Some b)
      with "1.prems" lt g1 show ?thesis
        by (subst (asm) n3dc_obj_parse_obj_face_loop.simps)
           (auto split: sum.splits prod.splits if_splits)
    qed
  qed
qed

lemma filter_upt_skip:
  "a \<le> b \<Longrightarrow> (\<forall>k. a \<le> k \<and> k < b \<longrightarrow> \<not> P k) \<Longrightarrow> filter P [a..<n] = filter P [b..<n]"
proof (induction "b - a" arbitrary: a)
  case 0
  then show ?case by simp
next
  case (Suc d)
  then have lt: "a < b" by simp
  show ?case
  proof (cases "a < n")
    case False
    with lt show ?thesis by simp
  next
    case True
    have "\<not> P a" using Suc.prems(2) lt by simp
    then have "filter P [a..<n] = filter P [a + 1..<n]"
      using True by (simp add: upt_conv_Cons)
    moreover have "filter P [a + 1..<n] = filter P [b..<n]"
      using Suc.hyps(2) lt Suc.prems(2) by (intro Suc.hyps(1)) auto
    ultimately show ?thesis by simp
  qed
qed

lemma faces_from_line:
  assumes "p + 1 < length cs" and "p < line_end"
    and "\<forall>k. p \<le> k \<and> k < line_end \<longrightarrow> cs ! k \<noteq> newline"
  shows "faces_from cs p
           = (if line_start cs p \<and> face_tag_at cs p then 1 else 0) + faces_from cs (line_end + 1)"
proof -
  let ?P = "\<lambda>p. line_start cs p \<and> face_tag_at cs p"
  have "[p..<length cs - 1] = p # [p + 1..<length cs - 1]"
    using assms(1) by (simp add: upt_conv_Cons)
  moreover have "filter ?P [p + 1..<length cs - 1] = filter ?P [line_end + 1..<length cs - 1]"
  proof (rule filter_upt_skip)
    show "p + 1 \<le> line_end + 1" using assms(2) by simp
    show "\<forall>k. p + 1 \<le> k \<and> k < line_end + 1 \<longrightarrow> \<not> ?P k"
    proof (intro allI impI)
      fix k assume k: "p + 1 \<le> k \<and> k < line_end + 1"
      then have "p \<le> k - 1 \<and> k - 1 < line_end" by arith
      with assms(3) have "cs ! (k - 1) \<noteq> newline" by blast
      moreover have "k \<noteq> 0" using k by simp
      ultimately show "\<not> ?P k" by (simp add: line_start_def)
    qed
  qed
  ultimately show ?thesis by (simp add: faces_from_def)
qed

lemma well_formed_line_kept: "well_formed_line cs p \<Longrightarrow> line_kept cs p"
  by (auto simp: well_formed_line_def line_kept_def split: sum.splits)

lemma lines_kept_iff:
  "lines_kept cs \<longleftrightarrow> (\<forall>p. p + 1 < length cs \<and> line_start cs p \<longrightarrow> line_kept cs p)"
  by (auto simp: lines_kept_def list_all_iff)

lemma load_step_line:
  assumes wf: "line_kept cs (current_char_offset s - 1)"
    and c1: "1 \<le> current_char_offset s" and c2: "current_char_offset s < length cs"
    and st: "load_step cs mv mn mi s = Inr s'"
  shows "\<exists>line_end. current_char_offset s' = line_end + 2
           \<and> current_char_offset s - 1 < line_end
           \<and> cs ! line_end = newline
           \<and> (\<forall>k. current_char_offset s - 1 \<le> k \<and> k < line_end \<longrightarrow> cs ! k \<noteq> newline)
           \<and> parsed_indices s' = parsed_indices s
                + (if face_tag_at cs (current_char_offset s - 1) then 3 else 0)"
proof -
  let ?c = "current_char_offset s"
  let ?p = "?c - 1"
  have pc: "?p + 1 = ?c" using c1 by simp
  from wf have nb: "cs ! ?p \<noteq> newline" by (simp add: line_kept_def)
  consider (v) "cs ! ?p = CHR ''v''" "cs ! ?c = CHR '' ''"
    | (vt) "cs ! ?p = CHR ''v''" "cs ! ?c = CHR ''t''"
    | (vn) "cs ! ?p = CHR ''v''" "cs ! ?c = CHR ''n''"
    | (f) "cs ! ?p = CHR ''f''" "cs ! ?c = CHR '' ''"
    | (other) "\<not> (cs ! ?p = CHR ''v'' \<and> cs ! ?c = CHR '' '')"
        "\<not> (cs ! ?p = CHR ''v'' \<and> cs ! ?c = CHR ''t'')"
        "\<not> (cs ! ?p = CHR ''v'' \<and> cs ! ?c = CHR ''n'')"
        "\<not> (cs ! ?p = CHR ''f'' \<and> cs ! ?c = CHR '' '')"
    by blast
  then show ?thesis
  proof cases
    case v
    with st obtain le r where sc: "n3dc_obj_parse_obj_vec3 cs (?c + 1) = Inr (le, r)"
      and s': "current_char_offset s' = le + 2" "parsed_indices s' = parsed_indices s"
      by (auto simp: load_step_def Let_def bind_error_def split: if_splits sum.splits prod.splits)
    from sc have a: "?c + 1 \<le> le" "cs ! le = newline"
      "\<forall>k. ?c + 1 \<le> k \<and> k < le \<longrightarrow> cs ! k \<noteq> newline"
      using vec3_loop_end vec3_loop_first_newline
      unfolding n3dc_obj_parse_obj_vec3_def by blast+
    have "\<forall>k. ?p \<le> k \<and> k < le \<longrightarrow> cs ! k \<noteq> newline"
    proof (intro allI impI)
      fix k assume k: "?p \<le> k \<and> k < le"
      then consider "k = ?p" | "k = ?c" | "?c + 1 \<le> k" using c1 by linarith
      then show "cs ! k \<noteq> newline" using v a(3) k by cases auto
    qed
    moreover have "\<not> face_tag_at cs ?p" using v by (simp add: face_tag_at_def)
    ultimately show ?thesis using s' a c1 by (intro exI[of _ le]) auto
  next
    case vt
    with wf pc have sp: "?c + 1 < length cs" "cs ! (?c + 1) \<noteq> newline"
      by (auto simp: line_kept_def)
    from vt st obtain le r where sc: "n3dc_obj_parse_obj_vec2 cs (?c + 2) = Inr (le, r)"
      and s': "current_char_offset s' = le + 2" "parsed_indices s' = parsed_indices s"
      by (auto simp: load_step_def Let_def bind_error_def split: if_splits sum.splits prod.splits)
    from sc have a: "?c + 2 \<le> le" "cs ! le = newline"
      "\<forall>k. ?c + 2 \<le> k \<and> k < le \<longrightarrow> cs ! k \<noteq> newline"
      using vec2_loop_end vec2_loop_first_newline
      unfolding n3dc_obj_parse_obj_vec2_def by blast+
    have "\<forall>k. ?p \<le> k \<and> k < le \<longrightarrow> cs ! k \<noteq> newline"
    proof (intro allI impI)
      fix k assume k: "?p \<le> k \<and> k < le"
      then consider "k = ?p" | "k = ?c" | "k = ?c + 1" | "?c + 2 \<le> k" using c1 by linarith
      then show "cs ! k \<noteq> newline" using vt sp a(3) k by cases auto
    qed
    moreover have "\<not> face_tag_at cs ?p" using vt by (simp add: face_tag_at_def)
    ultimately show ?thesis using s' a c1 by (intro exI[of _ le]) auto
  next
    case vn
    with wf pc have sp: "?c + 1 < length cs" "cs ! (?c + 1) \<noteq> newline"
      by (auto simp: line_kept_def)
    from vn st obtain le r where sc: "n3dc_obj_parse_obj_vec3 cs (?c + 2) = Inr (le, r)"
      and s': "current_char_offset s' = le + 2" "parsed_indices s' = parsed_indices s"
      by (auto simp: load_step_def Let_def bind_error_def split: if_splits sum.splits prod.splits)
    from sc have a: "?c + 2 \<le> le" "cs ! le = newline"
      "\<forall>k. ?c + 2 \<le> k \<and> k < le \<longrightarrow> cs ! k \<noteq> newline"
      using vec3_loop_end vec3_loop_first_newline
      unfolding n3dc_obj_parse_obj_vec3_def by blast+
    have "\<forall>k. ?p \<le> k \<and> k < le \<longrightarrow> cs ! k \<noteq> newline"
    proof (intro allI impI)
      fix k assume k: "?p \<le> k \<and> k < le"
      then consider "k = ?p" | "k = ?c" | "k = ?c + 1" | "?c + 2 \<le> k" using c1 by linarith
      then show "cs ! k \<noteq> newline" using vn sp a(3) k by cases auto
    qed
    moreover have "\<not> face_tag_at cs ?p" using vn by (simp add: face_tag_at_def)
    ultimately show ?thesis using s' a c1 by (intro exI[of _ le]) auto
  next
    case f
    then have ft: "face_tag_at cs ?p" using pc by (simp add: face_tag_at_def)
    from f st obtain le r where sc: "n3dc_obj_parse_obj_face cs ?c = Inr (le, r)"
      and s': "current_char_offset s' = le + 2" "parsed_indices s' = parsed_indices s + 3"
      by (auto simp: load_step_def Let_def bind_error_def split: if_splits sum.splits prod.splits)
    from sc have a: "?c \<le> le" "le < length cs" "cs ! le = newline"
      using face_end face_loop_ends_at_newline unfolding n3dc_obj_parse_obj_face_def by blast+
    from wf ft sc pc have nn: "newline \<notin> set (take (le - ?p) (drop ?p cs))"
      by (simp add: line_kept_def)
    have "\<forall>k. ?p \<le> k \<and> k < le \<longrightarrow> cs ! k \<noteq> newline"
      using no_newline_between [OF nn] a(2) by simp
    then show ?thesis using s' a c1 ft by (intro exI[of _ le]) auto
  next
    case other
    with st obtain le where sc: "n3dc_obj_seek_end_of_line cs ?c = Inr le"
      and s': "current_char_offset s' = le + 2" "parsed_indices s' = parsed_indices s"
      by (auto simp: load_step_def Let_def split: if_splits sum.splits)
    from sc have a: "?c \<le> le" "cs ! le = newline"
      "\<forall>k. ?c \<le> k \<and> k < le \<longrightarrow> cs ! k \<noteq> newline"
      using seek_loop_end seek_loop_first_newline
      unfolding n3dc_obj_seek_end_of_line_def by blast+
    have "\<forall>k. ?p \<le> k \<and> k < le \<longrightarrow> cs ! k \<noteq> newline"
    proof (intro allI impI)
      fix k assume k: "?p \<le> k \<and> k < le"
      then consider "k = ?p" | "?c \<le> k" using c1 by linarith
      then show "cs ! k \<noteq> newline" using nb a(3) k by cases auto
    qed
    moreover have "\<not> face_tag_at cs ?p" using other(4) pc by (simp add: face_tag_at_def)
    ultimately show ?thesis using s' a c1 by (intro exI[of _ le]) auto
  qed
qed

lemma load_loop_counts_faces:
  assumes "\<forall>p. p + 1 < length cs \<and> line_start cs p \<longrightarrow> well_formed_line cs p"
  shows "1 \<le> current_char_offset s \<Longrightarrow> line_start cs (current_char_offset s - 1)
    \<Longrightarrow> n3dc_obj_load_loop cs mv mn mi s = Inr s'
    \<Longrightarrow> parsed_indices s' = parsed_indices s + of_nat (3 * faces_from cs (current_char_offset s - 1))"
proof (induction "length cs - current_char_offset s" arbitrary: s rule: less_induct)
  case less
  let ?c = "current_char_offset s"
  let ?p = "?c - 1"
  show ?case
  proof (cases "?c < length cs")
    case False
    with less.prems(3) have "s' = s"
      by (subst (asm) n3dc_obj_load_loop.simps) simp
    moreover have "faces_from cs ?p = 0" using False by (simp add: faces_from_def)
    ultimately show ?thesis by simp
  next
    case True
    with less.prems(3) obtain s1 where
      st: "load_step cs mv mn mi s = Inr s1" and lp: "n3dc_obj_load_loop cs mv mn mi s1 = Inr s'"
      by (subst (asm) n3dc_obj_load_loop.simps) (auto split: sum.splits)
    have pc: "?p + 1 < length cs" using True less.prems(1) by simp
    with assms less.prems(2) have "well_formed_line cs ?p" by blast
    then have wf: "line_kept cs ?p" by (rule well_formed_line_kept)
    from load_step_line [OF wf less.prems(1) True st]
    obtain le where le: "current_char_offset s1 = le + 2" "?p < le" "cs ! le = newline"
      "\<forall>k. ?p \<le> k \<and> k < le \<longrightarrow> cs ! k \<noteq> newline"
      "parsed_indices s1 = parsed_indices s + (if face_tag_at cs ?p then 3 else 0)"
      by blast
    have m: "length cs - current_char_offset s1 < length cs - ?c"
      using True le(1,2) less.prems(1) by simp
    have "1 \<le> current_char_offset s1" using le(1) by simp
    moreover have "line_start cs (current_char_offset s1 - 1)"
      using le(1,3) by (simp add: line_start_def)
    ultimately have ih: "parsed_indices s' = parsed_indices s1
        + of_nat (3 * faces_from cs (current_char_offset s1 - 1))"
      using less.hyps [OF m] lp by blast
    have ff: "faces_from cs ?p
           = (if line_start cs ?p \<and> face_tag_at cs ?p then 1 else 0) + faces_from cs (le + 1)"
      by (rule faces_from_line [OF pc le(2) le(4)])
    show ?thesis
      using ih le(1,5) ff less.prems(2) by (simp add: algebra_simps)
  qed
qed

lemma resolve_loop_lengths:
  "resolve_loop s i ov ot on = Inr (ov', ot', on')
     \<Longrightarrow> length ov' = length ov \<and> length ot' = length ot \<and> length on' = length on"
proof (induction "unat (parsed_indices s) - i" arbitrary: i ov ot on rule: less_induct)
  case less
  show ?case
  proof (cases "i < unat (parsed_indices s)")
    case False
    with less.prems show ?thesis by (subst (asm) resolve_loop.simps) simp
  next
    case True
    with less.prems obtain p t n where
      rec: "resolve_loop s (i + 1)
               (ov[i * 3 := p ! 0, i * 3 + 1 := p ! 1, i * 3 + 2 := p ! 2])
               (ot[i * 2 := t ! 0, i * 2 + 1 := t ! 1])
               (on[i * 3 := n ! 0, i * 3 + 1 := n ! 1, i * 3 + 2 := n ! 2]) = Inr (ov', ot', on')"
      by (subst (asm) resolve_loop.simps) (auto split: sum.splits prod.splits)
    have "unat (parsed_indices s) - (i + 1) < unat (parsed_indices s) - i" using True by simp
    from less.hyps [OF this rec] show ?thesis by simp
  qed
qed

lemma load_result:
  assumes "n3dc_obj_load cs mv mn mi = Inr obj"
  shows "\<exists>s. n3dc_obj_load_loop cs mv mn mi (initial_state mv mn mi) = Inr s
           \<and> num_vertices obj = parsed_indices s
           \<and> length (vertices obj) = unat (parsed_indices s) * 3
           \<and> length (normals obj) = unat (parsed_indices s) * 3
           \<and> length (texture_coords obj) = unat (parsed_indices s) * 2"
proof -
  from assms obtain s where
    lp: "n3dc_obj_load_loop cs mv mn mi (initial_state mv mn mi) = Inr s"
    by (auto simp: n3dc_obj_load_def split: sum.splits)
  with assms obtain ov ot on where
    r: "resolve_loop s 0 (replicate (unat (parsed_indices s) * 3) None)
          (replicate (unat (parsed_indices s) * 2) None)
          (replicate (unat (parsed_indices s) * 3) None) = Inr (ov, ot, on)"
    and obj: "obj = \<lparr>num_vertices = parsed_indices s, vertices = ov, normals = on,
                    texture_coords = ot\<rparr>"
    by (auto simp: n3dc_obj_load_def split: sum.splits if_splits prod.splits)
  from resolve_loop_lengths [OF r] obj lp show ?thesis by simp
qed

subsection \<open>The driver comes to every line\<close>

lemma driver_reaches_step_first:
  "driver_reaches cs mv mn mi s1 s2 \<Longrightarrow> current_char_offset s < length cs
     \<Longrightarrow> load_step cs mv mn mi s = Inr s1 \<Longrightarrow> driver_reaches cs mv mn mi s s2"
proof (induction rule: driver_reaches.induct)
  case (start s1)
  from driver_reaches.start start.prems show ?case by (rule driver_reaches.step)
next
  case (step s1 s' s'')
  from step.IH [OF step.prems] step.hyps(2,3) show ?case by (rule driver_reaches.step)
qed

lemma load_loop_visits:
  assumes "\<forall>p. p + 1 < length cs \<and> line_start cs p \<longrightarrow> line_kept cs p"
    and "line_start cs p" and "p + 1 < length cs"
  shows "1 \<le> current_char_offset s \<Longrightarrow> line_start cs (current_char_offset s - 1)
    \<Longrightarrow> current_char_offset s - 1 \<le> p
    \<Longrightarrow> n3dc_obj_load_loop cs mv mn mi s = Inr s'
    \<Longrightarrow> \<exists>s1 s2. driver_reaches cs mv mn mi s s1 \<and> current_char_offset s1 = p + 1
                 \<and> load_step cs mv mn mi s1 = Inr s2"
proof (induction "length cs - current_char_offset s" arbitrary: s rule: less_induct)
  case less
  let ?c = "current_char_offset s"
  have lt: "?c < length cs" using less.prems(1,3) assms(3) by simp
  with less.prems(4) obtain sn where
    st: "load_step cs mv mn mi s = Inr sn" and lp: "n3dc_obj_load_loop cs mv mn mi sn = Inr s'"
    by (subst (asm) n3dc_obj_load_loop.simps) (auto split: sum.splits)
  show ?case
  proof (cases "?c - 1 = p")
    case True
    then have "?c = p + 1" using less.prems(1) by simp
    with st driver_reaches.start [of cs mv mn mi s] show ?thesis by blast
  next
    case False
    then have pl: "?c - 1 < p" using less.prems(3) by simp
    have "?c - 1 + 1 < length cs" using lt less.prems(1) by simp
    with assms(1) less.prems(2) have k: "line_kept cs (?c - 1)" by blast
    from load_step_line [OF k less.prems(1) lt st]
    obtain le where le: "current_char_offset sn = le + 2" "?c - 1 < le" "cs ! le = newline"
      "\<forall>k. ?c - 1 \<le> k \<and> k < le \<longrightarrow> cs ! k \<noteq> newline"
      by blast
    from assms(2) pl have "cs ! (p - 1) = newline" by (auto simp: line_start_def)
    with le(4) have "\<not> (?c - 1 \<le> p - 1 \<and> p - 1 < le)" by blast
    with pl have lp': "le + 1 \<le> p" by arith
    have m: "length cs - current_char_offset sn < length cs - ?c"
      using lt le(1,2) less.prems(1) by simp
    have "1 \<le> current_char_offset sn" using le(1) by simp
    moreover have "line_start cs (current_char_offset sn - 1)"
      using le(1,3) by (simp add: line_start_def)
    moreover have "current_char_offset sn - 1 \<le> p" using le(1) lp' by simp
    ultimately obtain s1 s2 where
      r: "driver_reaches cs mv mn mi sn s1" "current_char_offset s1 = p + 1"
         "load_step cs mv mn mi s1 = Inr s2"
      using less.hyps [OF m _ _ _ lp] by blast
    from driver_reaches_step_first [OF r(1) lt st] r(2,3) show ?thesis by blast
  qed
qed

lemma load_visits_line:
  assumes "lines_kept cs" and "line_start cs p" and "p + 1 < length cs"
    and "n3dc_obj_load cs mv mn mi = Inr obj"
  shows "\<exists>s1 s2. driver_at cs mv mn mi s1 \<and> current_char_offset s1 = p + 1
            \<and> load_step cs mv mn mi s1 = Inr s2"
proof -
  let ?s0 = "initial_state mv mn mi"
  from load_result [OF assms(4)] obtain s where
    lp: "n3dc_obj_load_loop cs mv mn mi ?s0 = Inr s" by blast
  have "1 \<le> current_char_offset ?s0" "line_start cs (current_char_offset ?s0 - 1)"
    "current_char_offset ?s0 - 1 \<le> p"
    by (simp_all add: initial_state_def line_start_def)
  from load_loop_visits [OF assms(1)[unfolded lines_kept_iff] assms(2,3) this lp]
  show ?thesis unfolding driver_at_def .
qed

lemma load_step_scans_vector:
  assumes "load_step cs mv mn mi s = Inr s'"
    and "cs ! (current_char_offset s - 1) = CHR ''v''"
  shows "(cs ! current_char_offset s = CHR '' '' \<longrightarrow>
            (\<exists>r. n3dc_obj_parse_obj_vec3 cs (current_char_offset s + 1) = Inr r))
       \<and> (cs ! current_char_offset s = CHR ''n'' \<longrightarrow>
            (\<exists>r. n3dc_obj_parse_obj_vec3 cs (current_char_offset s + 2) = Inr r))
       \<and> (cs ! current_char_offset s = CHR ''t'' \<longrightarrow>
            (\<exists>r. n3dc_obj_parse_obj_vec2 cs (current_char_offset s + 2) = Inr r))"
  using assms
  by (auto simp: load_step_def Let_def split: if_splits sum.splits)

lemma load_step_scans_face:
  assumes "load_step cs mv mn mi s = Inr s'"
    and "cs ! (current_char_offset s - 1) = CHR ''f''" and "cs ! current_char_offset s = CHR '' ''"
  shows "\<exists>r. n3dc_obj_parse_obj_face cs (current_char_offset s) = Inr r"
  using assms
  by (auto simp: load_step_def Let_def split: if_splits sum.splits)

subsection \<open>The fields of an index group\<close>

lemma list_all_between:
  assumes "list_all P (take (j - i) (drop i cs))" and "i \<le> k" and "k < j" and "j \<le> length cs"
  shows "P (cs ! k)"
proof -
  have "take (j - i) (drop i cs) ! (k - i) = cs ! k"
    using assms(2-4) by simp
  moreover have "k - i < length (take (j - i) (drop i cs))"
    using assms(2-4) by simp
  ultimately show ?thesis
    using assms(1) by (metis list_all_length)
qed

lemma index_group_loop_run:
  assumes "j \<le> length cs"
    and "\<forall>k. i \<le> k \<and> k < j \<longrightarrow>
           cs ! k \<noteq> CHR ''/'' \<and> (vp \<longrightarrow> cs ! k \<noteq> CHR '' '' \<and> cs ! k \<noteq> newline)"
  shows "i \<le> j \<Longrightarrow> n3dc_obj_parse_obj_index_group_loop cs st i vp ve tp te
                    = n3dc_obj_parse_obj_index_group_loop cs st j vp ve tp te"
  using assms(2)
proof (induction "j - i" arbitrary: i)
  case 0
  then show ?case by simp
next
  case (Suc d)
  then have lt: "i < j" by simp
  then have il: "i < length cs" using assms(1) by simp
  from Suc.prems(2) lt have c: "cs ! i \<noteq> CHR ''/''"
    "\<not> ((cs ! i = CHR '' '' \<or> cs ! i = newline) \<and> vp)" by auto
  have "n3dc_obj_parse_obj_index_group_loop cs st i vp ve tp te
          = n3dc_obj_parse_obj_index_group_loop cs st (i + 1) vp ve tp te"
    using il c by (subst n3dc_obj_parse_obj_index_group_loop.simps) (auto simp: Let_def)
  moreover have "n3dc_obj_parse_obj_index_group_loop cs st (i + 1) vp ve tp te
          = n3dc_obj_parse_obj_index_group_loop cs st j vp ve tp te"
    using Suc.hyps(2) lt Suc.prems(2) by (intro Suc.hyps(1)) auto
  ultimately show ?case by simp
qed

lemma index_group_scan:
  assumes o: "st < s1" "s1 < s2" "s2 < e" "e < length cs"
    and sl: "cs ! s1 = CHR ''/''" "cs ! s2 = CHR ''/''"
    and tm: "cs ! e = CHR '' '' \<or> cs ! e = newline"
    and f1: "\<forall>k. st \<le> k \<and> k < s1 \<longrightarrow> cs ! k \<noteq> CHR ''/''"
    and f2: "\<forall>k. s1 < k \<and> k < s2 \<longrightarrow> cs ! k \<noteq> CHR ''/'' \<and> cs ! k \<noteq> CHR '' '' \<and> cs ! k \<noteq> newline"
    and f3: "\<forall>k. s2 < k \<and> k < e \<longrightarrow> cs ! k \<noteq> CHR ''/'' \<and> cs ! k \<noteq> CHR '' '' \<and> cs ! k \<noteq> newline"
  shows "n3dc_obj_parse_obj_index_group cs st = index_group_convert cs st s1 s2 e"
proof -
  have "n3dc_obj_parse_obj_index_group cs st
          = n3dc_obj_parse_obj_index_group_loop cs st s1 False 0 False 0"
    unfolding n3dc_obj_parse_obj_index_group_def
    using o f1 by (intro index_group_loop_run) auto
  also have "\<dots> = n3dc_obj_parse_obj_index_group_loop cs st (s1 + 1) True s1 False 0"
    using o sl by (subst n3dc_obj_parse_obj_index_group_loop.simps) (simp add: Let_def)
  also have "\<dots> = n3dc_obj_parse_obj_index_group_loop cs st s2 True s1 False 0"
    using o f2 by (intro index_group_loop_run) auto
  also have "\<dots> = n3dc_obj_parse_obj_index_group_loop cs st (s2 + 1) True s1 True s2"
    using o sl by (subst n3dc_obj_parse_obj_index_group_loop.simps) (simp add: Let_def)
  also have "\<dots> = n3dc_obj_parse_obj_index_group_loop cs st e True s1 True s2"
    using o f3 by (intro index_group_loop_run) auto
  also have "\<dots> = index_group_convert cs st s1 s2 e"
    using o tm by (subst n3dc_obj_parse_obj_index_group_loop.simps) (auto simp: Let_def)
  finally show ?thesis .
qed

lemma atoi_digits:
  assumes "d \<noteq> []" and "list_all isdigit d"
  shows "atoi d = digits_value 0 d"
proof -
  from assms(1) obtain x r where d: "d = x # r" by (cases d) auto
  with assms(2) have "isdigit x" by simp
  from isdigit_not_space_or_sign [OF this] show ?thesis by (simp add: atoi_def d)
qed

lemma atoi_field:
  assumes "d \<noteq> []" and "list_all isdigit d" and "length d \<le> m"
    and "take (length d) f = d"
    and "case drop (length d) f of [] \<Rightarrow> True | x # r \<Rightarrow> \<not> isdigit x"
  shows "atoi (take m f) = digits_value 0 d"
proof -
  let ?r = "drop (length d) f"
  have f: "f = d @ ?r" using assms(4) by (metis append_take_drop_id)
  have t: "take m f = d @ take (m - length d) ?r"
    using assms(3) by (subst f) simp
  show ?thesis
  proof (cases "take (m - length d) ?r")
    case Nil
    with t atoi_digits [OF assms(1,2)] show ?thesis by simp
  next
    case (Cons x r')
    then have "?r \<noteq> []" by auto
    then obtain y r where r: "?r = y # r" by (cases ?r) auto
    with Cons have "x = y" by (cases "m - length d") auto
    with assms(5) r have "\<not> isdigit x" by simp
    from atoi_ignores_rest [OF assms(1,2) this, of r'] atoi_digits [OF assms(1,2)] t Cons
    show ?thesis by simp
  qed
qed

lemma field_between:
  assumes "field_reads cs a b d" and "a < k" and "k < b" and "b \<le> length cs"
  shows "cs ! k \<noteq> CHR ''/'' \<and> cs ! k \<noteq> CHR '' '' \<and> cs ! k \<noteq> newline"
proof -
  from assms(1) have
    "list_all (\<lambda>c. c \<noteq> CHR ''/'' \<and> c \<noteq> CHR '' '' \<and> c \<noteq> newline) (take (b - (a + 1)) (drop (a + 1) cs))"
    by (simp add: field_reads_def Let_def)
  from list_all_between [OF this, of k] assms(2-4) show ?thesis by simp
qed

lemma field_first_converts:
  assumes "field_reads cs a b d" and "a < b" and "b \<le> length cs" and "b - a < 2 ^ 32"
    and "cs ! a = CHR '' ''"
  shows "n3dc_obj_string_section_to_uint a b cs = word_of_int (digits_value 0 d)"
proof -
  let ?f = "take (b - a - 1) (drop (a + 1) cs)"
  from assms(1) have d: "d \<noteq> []" "list_all isdigit d" "length d \<le> 9" "take (length d) ?f = d"
    "case drop (length d) ?f of [] \<Rightarrow> True | x # r \<Rightarrow> \<not> isdigit x"
    by (simp_all add: field_reads_def Let_def)
  have al: "a < length cs" using assms(2,3) by simp
  have "string_section a b cs = take (min (b - a) 10) (drop a cs)"
    using assms(2,4) by (intro string_section_take) auto
  also have "drop a cs = cs ! a # drop (a + 1) cs"
    using al by (simp add: Cons_nth_drop_Suc)
  also have "take (min (b - a) 10) (cs ! a # drop (a + 1) cs)
               = cs ! a # take (min (b - a - 1) 9) (drop (a + 1) cs)"
    using assms(2) by (cases "b - a") (auto simp: min_def)
  also have "take (min (b - a - 1) 9) (drop (a + 1) cs) = take 9 ?f"
    by (simp add: min.commute)
  finally have "string_section a b cs = CHR '' '' # take 9 ?f" using assms(5) by simp
  then have "atoi (string_section a b cs) = atoi (take 9 ?f)"
    by (simp add: atoi_def isspace_def)
  with atoi_field [OF d(1,2,3,4,5)] show ?thesis
    by (simp add: n3dc_obj_string_section_to_uint_def)
qed

lemma field_next_converts:
  assumes "field_reads cs a b d" and "a < b" and "b \<le> length cs" and "b - a < 2 ^ 32"
  shows "n3dc_obj_string_section_to_uint (a + 1) b cs = word_of_int (digits_value 0 d)"
proof -
  let ?f = "take (b - a - 1) (drop (a + 1) cs)"
  from assms(1) have d: "d \<noteq> []" "list_all isdigit d" "length d \<le> 9" "take (length d) ?f = d"
    "case drop (length d) ?f of [] \<Rightarrow> True | x # r \<Rightarrow> \<not> isdigit x"
    by (simp_all add: field_reads_def Let_def)
  have "string_section (a + 1) b cs = take (min (b - (a + 1)) 10) (drop (a + 1) cs)"
    using assms(2,4) by (intro string_section_take) auto
  also have "\<dots> = take 10 ?f" by (simp add: min.commute)
  finally have "atoi (string_section (a + 1) b cs) = atoi (take 10 ?f)" by simp
  moreover have "length d \<le> 10" using d(3) by simp
  ultimately show ?thesis
    using atoi_field [OF d(1,2) _ d(4,5), of 10]
    by (simp add: n3dc_obj_string_section_to_uint_def)
qed

lemma index_group_accepts_fields:
  assumes o: "st < s1" "s1 < s2" "s2 < e" "e < length cs" "e - st < 2 ^ 32"
    and sp: "cs ! st = CHR '' ''"
    and sl: "cs ! s1 = CHR ''/''" "cs ! s2 = CHR ''/''"
    and tm: "cs ! e = CHR '' '' \<or> cs ! e = newline"
    and r1: "field_reads cs st s1 d1" and r2: "field_reads cs s1 s2 d2"
    and r3: "field_reads cs s2 e d3"
  shows "n3dc_obj_parse_obj_index_group cs st
           = Inr (e, (word_of_int (digits_value 0 d1) - 1,
                      word_of_int (digits_value 0 d2) - 1,
                      word_of_int (digits_value 0 d3) - 1))"
proof -
  have f1: "\<forall>k. st \<le> k \<and> k < s1 \<longrightarrow> cs ! k \<noteq> CHR ''/''"
  proof (intro allI impI)
    fix k assume k: "st \<le> k \<and> k < s1"
    show "cs ! k \<noteq> CHR ''/''"
    proof (cases "k = st")
      case True
      with sp show ?thesis by simp
    next
      case False
      with k field_between [OF r1, of k] o show ?thesis by simp
    qed
  qed
  have f2: "\<forall>k. s1 < k \<and> k < s2 \<longrightarrow> cs ! k \<noteq> CHR ''/'' \<and> cs ! k \<noteq> CHR '' '' \<and> cs ! k \<noteq> newline"
    using field_between [OF r2] o by simp
  have f3: "\<forall>k. s2 < k \<and> k < e \<longrightarrow> cs ! k \<noteq> CHR ''/'' \<and> cs ! k \<noteq> CHR '' '' \<and> cs ! k \<noteq> newline"
    using field_between [OF r3] o by simp
  have c1: "n3dc_obj_string_section_to_uint st s1 cs = word_of_int (digits_value 0 d1)"
    using o by (intro field_first_converts [OF r1 _ _ _ sp]) auto
  have c2: "n3dc_obj_string_section_to_uint (s1 + 1) s2 cs = word_of_int (digits_value 0 d2)"
    using o by (intro field_next_converts [OF r2]) auto
  have c3: "n3dc_obj_string_section_to_uint (s2 + 1) e cs = word_of_int (digits_value 0 d3)"
    using o by (intro field_next_converts [OF r3]) auto
  from r1 r2 r3 have nz: "(word_of_int (digits_value 0 d1) :: uint) \<noteq> 0"
    "(word_of_int (digits_value 0 d2) :: uint) \<noteq> 0" "(word_of_int (digits_value 0 d3) :: uint) \<noteq> 0"
    by (simp_all add: field_reads_def Let_def)
  show ?thesis
    unfolding index_group_scan [OF o(1-4) sl tm f1 f2 f3]
    using c1 c2 c3 nz by (simp add: index_group_convert_def Let_def)
qed

subsection \<open>Records of a file whose lines the driver comes to\<close>

text \<open>
  In a file whose lines are all kept, a load that succeeds has counted every position
  line and every texture line, and none of the counts went over its limit; a face line
  with a fourth group fails the load.
\<close>

lemma tagged_lines_from_line:
  assumes "p + 1 < length cs" and "p < line_end"
    and "\<forall>k. p \<le> k \<and> k < line_end \<longrightarrow> cs ! k \<noteq> newline"
  shows "tagged_lines_from tag cs p
           = (if line_start cs p \<and> tag cs p then 1 else 0) + tagged_lines_from tag cs (line_end + 1)"
proof -
  let ?P = "\<lambda>p. line_start cs p \<and> tag cs p"
  have "[p..<length cs - 1] = p # [p + 1..<length cs - 1]"
    using assms(1) by (simp add: upt_conv_Cons)
  moreover have "filter ?P [p + 1..<length cs - 1] = filter ?P [line_end + 1..<length cs - 1]"
  proof (rule filter_upt_skip)
    show "p + 1 \<le> line_end + 1" using assms(2) by simp
    show "\<forall>k. p + 1 \<le> k \<and> k < line_end + 1 \<longrightarrow> \<not> ?P k"
    proof (intro allI impI)
      fix k assume k: "p + 1 \<le> k \<and> k < line_end + 1"
      then have "p \<le> k - 1 \<and> k - 1 < line_end" by arith
      with assms(3) have "cs ! (k - 1) \<noteq> newline" by blast
      moreover have "k \<noteq> 0" using k by simp
      ultimately show "\<not> ?P k" by (simp add: line_start_def)
    qed
  qed
  ultimately show ?thesis by (simp add: tagged_lines_from_def)
qed

lemma word_succ_within:
  fixes w m :: uint
  assumes "w \<le> m" and "m \<noteq> - 1" and "\<not> m < w + 1"
  shows "w + 1 \<le> m \<and> unat (w + 1) = unat w + 1"
proof -
  have "w \<noteq> - 1" using assms(1,2) by (metis word_order.extremum_unique)
  then have "unat (w + 1) = unat w + 1"
    by (metis add.commute unatSuc Suc_eq_plus1 add_eq_0_iff_both_eq_0 max_word_wrap)
  with assms(3) show ?thesis by simp
qed

lemma load_loop_within_capacity:
  fixes cnt :: "load_state \<Rightarrow> uint"
  assumes kept: "\<forall>p. p + 1 < length cs \<and> line_start cs p \<longrightarrow> line_kept cs p"
    and stp: "\<And>s s'. 1 \<le> current_char_offset s \<Longrightarrow> load_step cs mv mn mi s = Inr s' \<Longrightarrow>
           cnt s' = cnt s + (if tag cs (current_char_offset s - 1) then 1 else 0)
           \<and> (tag cs (current_char_offset s - 1) \<longrightarrow> \<not> m < cnt s + 1)"
    and m: "m \<noteq> - 1"
  shows "1 \<le> current_char_offset s \<Longrightarrow> line_start cs (current_char_offset s - 1)
    \<Longrightarrow> n3dc_obj_load_loop cs mv mn mi s = Inr s' \<Longrightarrow> cnt s \<le> m
    \<Longrightarrow> unat (cnt s) + tagged_lines_from tag cs (current_char_offset s - 1) \<le> unat m"
proof (induction "length cs - current_char_offset s" arbitrary: s rule: less_induct)
  case less
  let ?c = "current_char_offset s"
  let ?p = "?c - 1"
  show ?case
  proof (cases "?c < length cs")
    case False
    then have "tagged_lines_from tag cs ?p = 0" by (simp add: tagged_lines_from_def)
    with less.prems(4) show ?thesis by (simp add: word_le_nat_alt)
  next
    case True
    with less.prems(3) obtain s1 where
      st: "load_step cs mv mn mi s = Inr s1" and lp: "n3dc_obj_load_loop cs mv mn mi s1 = Inr s'"
      by (subst (asm) n3dc_obj_load_loop.simps) (auto split: sum.splits)
    have pc: "?p + 1 < length cs" using True less.prems(1) by simp
    with kept less.prems(2) have wf: "line_kept cs ?p" by blast
    from load_step_line [OF wf less.prems(1) True st]
    obtain le where le: "current_char_offset s1 = le + 2" "?p < le" "cs ! le = newline"
      "\<forall>k. ?p \<le> k \<and> k < le \<longrightarrow> cs ! k \<noteq> newline"
      by blast
    from stp [OF less.prems(1) st]
    have c1: "cnt s1 = cnt s + (if tag cs ?p then 1 else 0)"
      and c2: "tag cs ?p \<longrightarrow> \<not> m < cnt s + 1" by simp_all
    have w: "cnt s1 \<le> m \<and> unat (cnt s1) = unat (cnt s) + (if tag cs ?p then 1 else 0)"
      using c1 c2 less.prems(4) word_succ_within [OF less.prems(4) m] by auto
    have mm: "length cs - current_char_offset s1 < length cs - ?c"
      using True le(1,2) less.prems(1) by simp
    have "1 \<le> current_char_offset s1" using le(1) by simp
    moreover have "line_start cs (current_char_offset s1 - 1)"
      using le(1,3) by (simp add: line_start_def)
    ultimately have ih: "unat (cnt s1) + tagged_lines_from tag cs (current_char_offset s1 - 1) \<le> unat m"
      using less.hyps [OF mm _ _ lp] w by blast
    have ff: "tagged_lines_from tag cs ?p
           = (if line_start cs ?p \<and> tag cs ?p then 1 else 0) + tagged_lines_from tag cs (le + 1)"
      by (rule tagged_lines_from_line [OF pc le(2) le(4)])
    show ?thesis
      using ih le(1) ff w less.prems(2) by simp
  qed
qed

lemma load_step_position_capacity:
  assumes "1 \<le> current_char_offset s" and "load_step cs mv mn mi s = Inr s'"
  shows "parsed_vertices s' = parsed_vertices s
           + (if position_tag_at cs (current_char_offset s - 1) then 1 else 0)
       \<and> (position_tag_at cs (current_char_offset s - 1) \<longrightarrow> \<not> mv < parsed_vertices s + 1)"
  using assms
  by (auto simp: load_step_def Let_def bind_error_def position_tag_at_def
           split: if_splits sum.splits prod.splits)

lemma load_step_texture_capacity:
  assumes "1 \<le> current_char_offset s" and "load_step cs mv mn mi s = Inr s'"
  shows "parsed_texture_coords s' = parsed_texture_coords s
           + (if texture_tag_at cs (current_char_offset s - 1) then 1 else 0)
       \<and> (texture_tag_at cs (current_char_offset s - 1) \<longrightarrow> \<not> mi < parsed_texture_coords s + 1)"
  using assms
  by (auto simp: load_step_def Let_def bind_error_def texture_tag_at_def
           split: if_splits sum.splits prod.splits)

lemma position_lines_over_capacity:
  assumes "lines_kept cs" and "max_vertices \<noteq> - 1"
    and "unat max_vertices < position_line_count cs"
  shows "\<exists>e. n3dc_obj_load cs max_vertices max_normals max_indices = Inl e"
proof (cases "n3dc_obj_load cs max_vertices max_normals max_indices")
  case (Inl e)
  then show ?thesis by blast
next
  case (Inr obj)
  let ?s0 = "initial_state max_vertices max_normals max_indices"
  from load_result [OF Inr] obtain s where
    lp: "n3dc_obj_load_loop cs max_vertices max_normals max_indices ?s0 = Inr s" by blast
  have i: "1 \<le> current_char_offset ?s0" "line_start cs (current_char_offset ?s0 - 1)"
    "parsed_vertices ?s0 \<le> max_vertices"
    by (simp_all add: initial_state_def line_start_def)
  from load_loop_within_capacity [where cnt = parsed_vertices and tag = position_tag_at,
      OF assms(1)[unfolded lines_kept_iff] load_step_position_capacity assms(2) i(1,2) lp i(3)]
  have "position_line_count cs \<le> unat max_vertices"
    by (simp add: initial_state_def position_line_count_def)
  with assms(3) show ?thesis by simp
qed

lemma texture_lines_over_capacity:
  assumes "lines_kept cs" and "max_indices \<noteq> - 1"
    and "unat max_indices < texture_line_count cs"
  shows "\<exists>e. n3dc_obj_load cs max_vertices max_normals max_indices = Inl e"
proof (cases "n3dc_obj_load cs max_vertices max_normals max_indices")
  case (Inl e)
  then show ?thesis by blast
next
  case (Inr obj)
  let ?s0 = "initial_state max_vertices max_normals max_indices"
  from load_result [OF Inr] obtain s where
    lp: "n3dc_obj_load_loop cs max_vertices max_normals max_indices ?s0 = Inr s" by blast
  have i: "1 \<le> current_char_offset ?s0" "line_start cs (current_char_offset ?s0 - 1)"
    "parsed_texture_coords ?s0 \<le> max_indices"
    by (simp_all add: initial_state_def line_start_def)
  from load_loop_within_capacity [where cnt = parsed_texture_coords and tag = texture_tag_at,
      OF assms(1)[unfolded lines_kept_iff] load_step_texture_capacity assms(2) i(1,2) lp i(3)]
  have "texture_line_count cs \<le> unat max_indices"
    by (simp add: initial_state_def texture_line_count_def)
  with assms(3) show ?thesis by simp
qed

lemma fourth_group_fails_load:
  assumes "lines_kept cs" and "line_start cs p" and "p + 1 < length cs"
    and "face_tag_at cs p"
    and "n3dc_obj_parse_obj_index_group cs (p + 1) = Inr (end_1, g1)"
    and "n3dc_obj_parse_obj_index_group cs end_1 = Inr (end_2, g2)"
    and "n3dc_obj_parse_obj_index_group cs end_2 = Inr (end_3, g3)"
    and "cs ! end_3 = CHR '' ''"
  shows "n3dc_obj_parse_obj_face cs (p + 1) = Inl NonTriangulated
       \<and> (\<exists>e. n3dc_obj_load cs max_vertices max_normals max_indices = Inl e)"
proof -
  obtain v t n where g3: "g3 = (v, t, n)" by (cases g3)
  have f: "n3dc_obj_parse_obj_face cs (p + 1) = Inl NonTriangulated"
    using face_three_groups [OF assms(5,6) assms(7)[unfolded g3]] assms(8) by simp
  have "\<exists>e. n3dc_obj_load cs max_vertices max_normals max_indices = Inl e"
  proof (cases "n3dc_obj_load cs max_vertices max_normals max_indices")
    case (Inl e)
    then show ?thesis by blast
  next
    case (Inr obj)
    from load_visits_line [OF assms(1-3) Inr] obtain s1 s2 where
      s: "current_char_offset s1 = p + 1"
         "load_step cs max_vertices max_normals max_indices s1 = Inr s2" by blast
    from assms(4) s(1) have "cs ! (current_char_offset s1 - 1) = CHR ''f''"
      "cs ! current_char_offset s1 = CHR '' ''" by (simp_all add: face_tag_at_def)
    from load_step_scans_face [OF s(2) this] s(1) f show ?thesis by simp
  qed
  with f show ?thesis by simp
qed

subsection \<open>Records at the cursor of the driver\<close>

text \<open>
  What a pass of the driver does with a record that it stands on: a face record with a
  fourth group, a position record and a texture record over the capacity.
\<close>

lemma face_with_fourth_group_at_driver:
  assumes "driver_at cs max_vertices max_normals max_indices s"
    and "current_char_offset s < length cs"
    and "cs ! (current_char_offset s - 1) = CHR ''f''"
    and "cs ! current_char_offset s = CHR '' ''"
    and "\<not> max_indices < parsed_indices s + 3"
    and "n3dc_obj_parse_obj_index_group cs (current_char_offset s) = Inr (end_1, g1)"
    and "n3dc_obj_parse_obj_index_group cs end_1 = Inr (end_2, g2)"
    and "n3dc_obj_parse_obj_index_group cs end_2 = Inr (end_3, g3)"
    and "cs ! end_3 = CHR '' ''"
  shows "n3dc_obj_parse_obj_face cs (current_char_offset s) = Inl NonTriangulated
       \<and> n3dc_obj_load cs max_vertices max_normals max_indices = Inl NonTriangulated"
proof -
  obtain v t n where g3: "g3 = (v, t, n)" by (cases g3)
  have f: "n3dc_obj_parse_obj_face cs (current_char_offset s) = Inl NonTriangulated"
    using face_three_groups [OF assms(6,7) assms(8)[unfolded g3]] assms(9) by simp
  have st: "load_step cs max_vertices max_normals max_indices s = Inl NonTriangulated"
    using assms(3,4,5) f by (simp add: load_step_def Let_def)
  from load_fails_at [OF assms(1) load_loop_step_error [OF assms(2) st]] f
  show ?thesis by simp
qed

lemma position_record_over_capacity_at_driver:
  assumes "records_read position_tag_at cs max_vertices max_normals max_indices s (unat max_vertices)"
    and "current_char_offset s < length cs"
    and "position_tag_at cs (current_char_offset s - 1)"
    and "max_vertices \<noteq> - 1"
  shows "load_step cs max_vertices max_normals max_indices s = Inl ExceededVertices
       \<and> n3dc_obj_load cs max_vertices max_normals max_indices = Inl ExceededVertices"
proof -
  from records_read_driver_at [OF assms(1)]
  have at: "driver_at cs max_vertices max_normals max_indices s" and c: "1 \<le> current_char_offset s"
    by simp_all
  have "parsed_vertices s = max_vertices"
    using position_records_counted [OF assms(1)] by simp
  then have "max_vertices < parsed_vertices s + 1"
    using assms(4) word_succ_greater by simp
  then have st: "load_step cs max_vertices max_normals max_indices s = Inl ExceededVertices"
    using assms(3) c by (simp add: load_step_def Let_def position_tag_at_def)
  from load_fails_at [OF at load_loop_step_error [OF assms(2) st]] st
  show ?thesis by simp
qed

lemma texture_record_over_capacity_at_driver:
  assumes "records_read texture_tag_at cs max_vertices max_normals max_indices s (unat max_indices)"
    and "current_char_offset s < length cs"
    and "texture_tag_at cs (current_char_offset s - 1)"
    and "max_indices \<noteq> - 1"
  shows "load_step cs max_vertices max_normals max_indices s = Inl ExceededTextureCoords
       \<and> n3dc_obj_load cs max_vertices max_normals max_indices = Inl ExceededTextureCoords"
proof -
  from records_read_driver_at [OF assms(1)]
  have at: "driver_at cs max_vertices max_normals max_indices s" and c: "1 \<le> current_char_offset s"
    by simp_all
  have "parsed_texture_coords s = max_indices"
    using texture_records_counted [OF assms(1)] by simp
  then have "max_indices < parsed_texture_coords s + 1"
    using assms(4) word_succ_greater by simp
  then have st: "load_step cs max_vertices max_normals max_indices s = Inl ExceededTextureCoords"
    using assms(3) c by (simp add: load_step_def Let_def texture_tag_at_def)
  from load_fails_at [OF at load_loop_step_error [OF assms(2) st]] st
  show ?thesis by simp
qed

section \<open>The claims\<close>

subsection \<open>C1: the scenario of one triangle\<close>

lemma scenario_values_binary32_exact:
  "binary32_exact 0 \<and> binary32_exact 1 \<and> binary32_exact 2 \<and> binary32_exact (1 / 2)"
  by code_simp

text \<open>
  C1. The file of the four lines \<open>v 0.0 1.0 2.0\<close>, \<open>vt 0.5 0.5\<close>, \<open>vn 0.0 0.0 1.0\<close> and
  \<open>f 1/1/1 1/1/1 1/1/1\<close>, loaded with the capacities 1, 1 and 3, gives a result (not
  \<open>NULL\<close>) of 3 corners; each corner has the position (0, 1, 2), the texture coordinate
  (1/2, 1/2) and the normal (0, 0, 1). All these values are binary32 values
  (\<open>scenario_values_binary32_exact\<close>).
\<close>

theorem C1_scenario_load:
  "n3dc_obj_load
     ''v 0.0 1.0 2.0\<newline>vt 0.5 0.5\<newline>vn 0.0 0.0 1.0\<newline>f 1/1/1 1/1/1 1/1/1\<newline>'' 1 1 3
   = Inr \<lparr>num_vertices = 3,
          vertices = [Some 0, Some 1, Some 2, Some 0, Some 1, Some 2, Some 0, Some 1, Some 2],
          normals = [Some 0, Some 0, Some 1, Some 0, Some 0, Some 1, Some 0, Some 0, Some 1],
          texture_coords = [Some (1 / 2), Some (1 / 2), Some (1 / 2),
                            Some (1 / 2), Some (1 / 2), Some (1 / 2)]\<rparr>"
  by code_simp

subsection \<open>C2: corner count and array lengths\<close>

text \<open>
  C2 says that a well-formed file of \<open>F\<close> face lines loads to \<open>3F\<close> corners and to arrays
  of \<open>3F\<close> (positions, normals) and \<open>2F\<close> (texture coordinates) scalars. The count is
  right, the lengths are not: a corner has three scalars of position, three of normal
  and two of texture coordinate. With one face line the arrays have 9, 9 and 6 scalars.
\<close>

theorem C2_array_lengths_counterexample:
  "well_formed ''v 0 0 0\<newline>vt 0 0\<newline>vn 0 0 1\<newline>f 1/1/1 1/1/1 1/1/1\<newline>''
   \<and> face_line_count ''v 0 0 0\<newline>vt 0 0\<newline>vn 0 0 1\<newline>f 1/1/1 1/1/1 1/1/1\<newline>'' = 1
   \<and> (case n3dc_obj_load ''v 0 0 0\<newline>vt 0 0\<newline>vn 0 0 1\<newline>f 1/1/1 1/1/1 1/1/1\<newline>'' 1 1 3 of
         Inl e \<Rightarrow> False
       | Inr obj \<Rightarrow> num_vertices obj = 3
           \<and> length (vertices obj) = 9 \<and> length (vertices obj) \<noteq> 3 * 1
           \<and> length (normals obj) = 9 \<and> length (normals obj) \<noteq> 3 * 1
           \<and> length (texture_coords obj) = 6 \<and> length (texture_coords obj) \<noteq> 2 * 1)"
  by code_simp

lemma line_after_blank_line_is_skipped:
  "n3dc_obj_load
     ''v 0 0 0\<newline>vt 0 0\<newline>vn 0 0 1\<newline>\<newline>f 1/1/1 1/1/1 1/1/1\<newline>'' 1 1 3
   = Inr \<lparr>num_vertices = 0, vertices = [], normals = [], texture_coords = []\<rparr>"
  by code_simp

text \<open>
  C2, amended. When a well-formed file of \<open>F\<close> face lines loads successfully, the corner
  count is \<open>3F\<close> (as an \<open>unsigned int\<close>), the arrays of positions and normals have 3
  scalars for each corner and the array of texture coordinates has 2: \<open>9F\<close>, \<open>9F\<close> and
  \<open>6F\<close> scalars.
\<close>

theorem C2_corner_count:
  assumes "well_formed cs"
    and "n3dc_obj_load cs max_vertices max_normals max_indices = Inr obj"
  shows "num_vertices obj = of_nat (3 * face_line_count cs)
       \<and> length (vertices obj) = 3 * unat (num_vertices obj)
       \<and> length (normals obj) = 3 * unat (num_vertices obj)
       \<and> length (texture_coords obj) = 2 * unat (num_vertices obj)
       \<and> (3 * face_line_count cs < 2 ^ 32 \<longrightarrow>
            unat (num_vertices obj) = 3 * face_line_count cs
          \<and> length (vertices obj) = 9 * face_line_count cs
          \<and> length (normals obj) = 9 * face_line_count cs
          \<and> length (texture_coords obj) = 6 * face_line_count cs)"
proof -
  let ?s0 = "initial_state max_vertices max_normals max_indices"
  from load_result [OF assms(2)] obtain s where
    lp: "n3dc_obj_load_loop cs max_vertices max_normals max_indices ?s0 = Inr s"
    and o: "num_vertices obj = parsed_indices s"
      "length (vertices obj) = unat (parsed_indices s) * 3"
      "length (normals obj) = unat (parsed_indices s) * 3"
      "length (texture_coords obj) = unat (parsed_indices s) * 2"
    by blast
  have "1 \<le> current_char_offset ?s0" and "line_start cs (current_char_offset ?s0 - 1)"
    by (simp_all add: initial_state_def line_start_def)
  from load_loop_counts_faces [OF assms(1)[unfolded well_formed_iff] this lp]
  have n: "parsed_indices s = of_nat (3 * face_line_count cs)"
    by (simp add: initial_state_def face_line_count_def)
  have "unat (parsed_indices s) = (3 * face_line_count cs) mod 2 ^ 32"
    unfolding n unat_of_nat by simp
  then have u: "unat (parsed_indices s) = 3 * face_line_count cs"
    if "3 * face_line_count cs < 2 ^ 32"
    using that by simp
  from o n u show ?thesis by auto
qed

theorem C2_corner_count_witness:
  "well_formed ''v 0 0 0\<newline>v 1 0 0\<newline>v 0 1 0\<newline>vt 0 0\<newline>vn 0 0 1\<newline>f 1/1/1 2/1/1 3/1/1\<newline>f 3/1/1 2/1/1 1/1/1\<newline>''
   \<and> face_line_count ''v 0 0 0\<newline>v 1 0 0\<newline>v 0 1 0\<newline>vt 0 0\<newline>vn 0 0 1\<newline>f 1/1/1 2/1/1 3/1/1\<newline>f 3/1/1 2/1/1 1/1/1\<newline>'' = 2
   \<and> n3dc_obj_load ''v 0 0 0\<newline>v 1 0 0\<newline>v 0 1 0\<newline>vt 0 0\<newline>vn 0 0 1\<newline>f 1/1/1 2/1/1 3/1/1\<newline>f 3/1/1 2/1/1 1/1/1\<newline>'' 3 1 6
     = Inr \<lparr>num_vertices = 6,
            vertices = [Some 0, Some 0, Some 0, Some 1, Some 0, Some 0, Some 0, Some 1, Some 0,
                        Some 0, Some 1, Some 0, Some 1, Some 0, Some 0, Some 0, Some 0, Some 0],
            normals = [Some 0, Some 0, Some 1, Some 0, Some 0, Some 1, Some 0, Some 0, Some 1,
                       Some 0, Some 0, Some 1, Some 0, Some 0, Some 1, Some 0, Some 0, Some 1],
            texture_coords = [Some 0, Some 0, Some 0, Some 0, Some 0, Some 0,
                              Some 0, Some 0, Some 0, Some 0, Some 0, Some 0]\<rparr>"
proof -
  let ?cs = "''v 0 0 0\<newline>v 1 0 0\<newline>v 0 1 0\<newline>vt 0 0\<newline>vn 0 0 1\<newline>f 1/1/1 2/1/1 3/1/1\<newline>f 3/1/1 2/1/1 1/1/1\<newline>''"
  let ?obj = "\<lparr>num_vertices = 6,
            vertices = [Some 0, Some 0, Some 0, Some 1, Some 0, Some 0, Some 0, Some 1, Some 0,
                        Some 0, Some 1, Some 0, Some 1, Some 0, Some 0, Some 0, Some 0, Some 0],
            normals = [Some 0, Some 0, Some 1, Some 0, Some 0, Some 1, Some 0, Some 0, Some 1,
                       Some 0, Some 0, Some 1, Some 0, Some 0, Some 1, Some 0, Some 0, Some 1],
            texture_coords = [Some 0, Some 0, Some 0, Some 0, Some 0, Some 0,
                              Some 0, Some 0, Some 0, Some 0, Some 0, Some 0]\<rparr>"
  have h1: "well_formed ?cs" by code_simp
  have h2: "n3dc_obj_load ?cs 3 1 6 = Inr ?obj" by code_simp
  have f: "face_line_count ?cs = 2" by code_simp
  have "num_vertices ?obj = of_nat (3 * face_line_count ?cs)"
    using C2_corner_count [OF h1 h2] by simp
  with h1 h2 f show ?thesis by simp
qed

subsection \<open>C3: index translation, and a zero index that is accepted\<close>

text \<open>
  C3. Every index group that the scanner reads has three components that are at least 1
  in the file, and stores each minus 1 (\<open>index_group_translates\<close>); a component that
  converts to 0 makes the scan of the group fail, and then the load has to fail. It does
  not when the group is the third of its face and starts at a newline: the face scanner
  tests the character at the start of the group, not the result of the scan. In the file
  below the third group \<open>1/1/0\<close> stands on the line after \<open>f 1/1/1 1/1/1\<close>; its scan
  fails on the normal index 0, which is stored, and the load returns 3 corners.
\<close>

theorem C3_zero_index_accepted:
  "n3dc_obj_parse_obj_index_group
     ''v 0 0 0\<newline>vt 0 0\<newline>vn 0 0 0\<newline>f 1/1/1 1/1/1\<newline>1/1/0\<newline>'' 37
     = Inl (NormalIndexInvalid, (Some 0, Some 0, Some 0))
   \<and> n3dc_obj_load
       ''v 0 0 0\<newline>vt 0 0\<newline>vn 0 0 0\<newline>f 1/1/1 1/1/1\<newline>1/1/0\<newline>'' 1 1 3
     = Inr \<lparr>num_vertices = 3,
            vertices = [Some 0, Some 0, Some 0, Some 0, Some 0, Some 0, Some 0, Some 0, Some 0],
            normals = [Some 0, Some 0, Some 0, Some 0, Some 0, Some 0, Some 0, Some 0, Some 0],
            texture_coords = [Some 0, Some 0, Some 0, Some 0, Some 0, Some 0]\<rparr>"
  by code_simp

subsection \<open>C4: a fourth index group\<close>

text \<open>
  C4. A face record whose third index group ends at a space has a fourth group: the face
  scan fails on it with the diagnosis of non-triangulated geometry, not with one of the
  diagnoses of a malformed group or of the end of the file, and the load has to fail.
  Where the driver scans the record, it does (\<open>face_with_fourth_group_at_driver\<close>, and
  \<open>fourth_group_fails_load\<close> for every such line of a file whose lines are all kept). It
  does not scan a record behind a blank line. The cursor of the driver is one behind the
  start of a line, so at a blank line it is already on the first character of the next
  line, and the branch of the comment \<^verbatim>\<open>Skip to start of next line\<close> takes that line too. The file
  below is the scenario of C1 with a fourth group and a blank line before the face line;
  the face line starts at offset 41. The face scan of the record fails as the claim says,
  but the load never runs it and returns a result of 0 corners.
\<close>

theorem C4_fourth_group_after_blank_line:
  "line_start ''v 0.0 1.0 2.0\<newline>vt 0.5 0.5\<newline>vn 0.0 0.0 1.0\<newline>\<newline>f 1/1/1 1/1/1 1/1/1 1/1/1\<newline>'' 41
   \<and> face_tag_at ''v 0.0 1.0 2.0\<newline>vt 0.5 0.5\<newline>vn 0.0 0.0 1.0\<newline>\<newline>f 1/1/1 1/1/1 1/1/1 1/1/1\<newline>'' 41
   \<and> n3dc_obj_parse_obj_face
       ''v 0.0 1.0 2.0\<newline>vt 0.5 0.5\<newline>vn 0.0 0.0 1.0\<newline>\<newline>f 1/1/1 1/1/1 1/1/1 1/1/1\<newline>'' 42
     = Inl NonTriangulated
   \<and> n3dc_obj_load
       ''v 0.0 1.0 2.0\<newline>vt 0.5 0.5\<newline>vn 0.0 0.0 1.0\<newline>\<newline>f 1/1/1 1/1/1 1/1/1 1/1/1\<newline>'' 1 1 3
     = Inr \<lparr>num_vertices = 0, vertices = [], normals = [], texture_coords = []\<rparr>"
  by code_simp

subsection \<open>C5: more position records than \<open>max_vertices\<close>\<close>

text \<open>
  C5. The count of the position records is incremented and compared with \<open>max_vertices\<close>
  before the record is scanned, and a load of \<open>max_vertices + 1\<close> position records has to
  fail with the capacity diagnosis, never to return a truncated result. It does where the
  driver scans the records (\<open>position_record_over_capacity_at_driver\<close>, and
  \<open>position_lines_over_capacity\<close> for every file whose lines are all kept). A position
  record behind a blank line is never counted: the skip at the blank line takes it (as in
  C4). The file below has two position lines; with \<open>max_vertices = 1\<close> the load returns a
  result, of 0 corners.
\<close>

theorem C5_position_record_after_blank_line:
  "position_line_count ''v 1 2 3\<newline>\<newline>v 4 5 6\<newline>'' = 2
   \<and> n3dc_obj_load ''v 1 2 3\<newline>\<newline>v 4 5 6\<newline>'' 1 1 3
     = Inr \<lparr>num_vertices = 0, vertices = [], normals = [], texture_coords = []\<rparr>"
  by code_simp

subsection \<open>C6: a last line without a newline\<close>

text \<open>
  C6. The load of any file ends, and the skip of a line that is not a record reports a
  truncation when no newline is left. The skip started inside the contents never reports
  it (\<open>seek_loop_never_reports\<close>): it reads on behind the terminating NUL of the
  buffer. The file \<open># c\<close> has no newline.
\<close>

theorem C6_seek_reads_past_buffer:
  "n3dc_obj_seek_end_of_line ''# c'' 1 = Inl OutOfBoundsRead
   \<and> n3dc_obj_load ''# c'' 1 1 3 = Inl OutOfBoundsRead"
  by code_simp

subsection \<open>C7: invalid characters\<close>

text \<open>
  C7 says that an invalid character in a numeric field fails the load, in vector records
  and in the fields of an index group alike. The index-group scanner checks no
  character: the letter in \<open>1a/1/1\<close> is accepted and the load succeeds.
\<close>

theorem C7_letter_in_index_group_accepted:
  "n3dc_obj_load
     ''v 0 0 0\<newline>vt 0 0\<newline>vn 0 0 0\<newline>f 1a/1/1 1/1/1 1/1/1\<newline>'' 1 1 3
   = Inr \<lparr>num_vertices = 3,
          vertices = [Some 0, Some 0, Some 0, Some 0, Some 0, Some 0, Some 0, Some 0, Some 0],
          normals = [Some 0, Some 0, Some 0, Some 0, Some 0, Some 0, Some 0, Some 0, Some 0],
          texture_coords = [Some 0, Some 0, Some 0, Some 0, Some 0, Some 0]\<rparr>"
  by code_simp

lemma character_behind_tag_is_not_read:
  "n3dc_obj_load ''vtx 0 0\<newline>vnx 0 0 1\<newline>'' 1 1 3
     = Inr \<lparr>num_vertices = 0, vertices = [], normals = [], texture_coords = []\<rparr>"
  by code_simp

text \<open>
  C7, amended. In a file whose lines the driver all comes to (no line is blank, the tags
  \<open>vt\<close> and \<open>vn\<close> are followed by one more character on the line, and a face record that
  is read ends at the newline of its own line), take a vector record (\<open>v\<close>, \<open>vt\<close>, \<open>vn\<close>)
  and its fields: the characters from behind \<open>v \<close>, or from behind the tag \<open>vt\<close> or \<open>vn\<close>
  and the one character after it, to the newline of the line. A character among them
  other than a digit, \<open>.\<close>, \<open>-\<close> or a space is a parse error of the invalid character
  for both vector scanners, and the load fails. (The character right behind \<open>vt\<close> or \<open>vn\<close>
  is not read: \<open>character_behind_tag_is_not_read\<close>.) The fields of an index group are not
  checked. A group that starts at a space, has its three fields separated by slashes and
  ends at a space or a newline is read whenever each field begins with 1 to 9 digits of a
  value other than 0 and holds no slash, space or newline: the components are the values
  of these digits minus 1, whatever characters follow the digits in a field.
\<close>

theorem C7_invalid_characters:
  "(lines_kept cs \<and> line_start cs p \<and> p + 1 < length cs
      \<and> vector_fields_start cs p = Some a \<and> invalid_in_record cs a j
    \<longrightarrow> (\<exists>c. n3dc_obj_parse_obj_vec3 cs a = Inl (VecInvalidChar c))
      \<and> (\<exists>c. n3dc_obj_parse_obj_vec2 cs a = Inl (TexInvalidChar c))
      \<and> (\<exists>e. n3dc_obj_load cs max_vertices max_normals max_indices = Inl e))
 \<and> (st < s1 \<and> s1 < s2 \<and> s2 < e \<and> e < length cs \<and> e - st < 2 ^ 32
      \<and> cs ! st = CHR '' '' \<and> cs ! s1 = CHR ''/'' \<and> cs ! s2 = CHR ''/''
      \<and> (cs ! e = CHR '' '' \<or> cs ! e = newline)
      \<and> field_reads cs st s1 d1 \<and> field_reads cs s1 s2 d2 \<and> field_reads cs s2 e d3
    \<longrightarrow> n3dc_obj_parse_obj_index_group cs st
          = Inr (e, (word_of_int (digits_value 0 d1) - 1,
                     word_of_int (digits_value 0 d2) - 1,
                     word_of_int (digits_value 0 d3) - 1)))"
proof (intro conjI impI)
  assume h: "lines_kept cs \<and> line_start cs p \<and> p + 1 < length cs
      \<and> vector_fields_start cs p = Some a \<and> invalid_in_record cs a j"
  then have k: "lines_kept cs" "line_start cs p" "p + 1 < length cs"
    and a: "vector_fields_start cs p = Some a" and i: "invalid_in_record cs a j"
    by simp_all
  from vec3_invalid [OF i] show v3: "\<exists>c. n3dc_obj_parse_obj_vec3 cs a = Inl (VecInvalidChar c)" .
  from vec2_invalid [OF i] show v2: "\<exists>c. n3dc_obj_parse_obj_vec2 cs a = Inl (TexInvalidChar c)" .
  show "\<exists>e. n3dc_obj_load cs max_vertices max_normals max_indices = Inl e"
  proof (cases "n3dc_obj_load cs max_vertices max_normals max_indices")
    case (Inl e)
    then show ?thesis by blast
  next
    case (Inr obj)
    from load_visits_line [OF k Inr] obtain s1 s2 where
      s: "current_char_offset s1 = p + 1"
         "load_step cs max_vertices max_normals max_indices s1 = Inr s2" by blast
    from a have v: "cs ! (current_char_offset s1 - 1) = CHR ''v''"
      using s(1) by (auto simp: vector_fields_start_def split: if_splits)
    from a s(1) have "(cs ! current_char_offset s1 = CHR '' '' \<and> a = current_char_offset s1 + 1)
        \<or> (cs ! current_char_offset s1 = CHR ''n'' \<and> a = current_char_offset s1 + 2)
        \<or> (cs ! current_char_offset s1 = CHR ''t'' \<and> a = current_char_offset s1 + 2)"
      by (auto simp: vector_fields_start_def split: if_splits)
    with load_step_scans_vector [OF s(2) v] v3 v2 show ?thesis by auto
  qed
next
  assume "st < s1 \<and> s1 < s2 \<and> s2 < e \<and> e < length cs \<and> e - st < 2 ^ 32
      \<and> cs ! st = CHR '' '' \<and> cs ! s1 = CHR ''/'' \<and> cs ! s2 = CHR ''/''
      \<and> (cs ! e = CHR '' '' \<or> cs ! e = newline)
      \<and> field_reads cs st s1 d1 \<and> field_reads cs s1 s2 d2 \<and> field_reads cs s2 e d3"
  then have o: "st < s1" "s1 < s2" "s2 < e" "e < length cs" "e - st < 2 ^ 32"
    and sp: "cs ! st = CHR '' ''" and sl: "cs ! s1 = CHR ''/''" "cs ! s2 = CHR ''/''"
    and tm: "cs ! e = CHR '' '' \<or> cs ! e = newline"
    and r: "field_reads cs st s1 d1" "field_reads cs s1 s2 d2" "field_reads cs s2 e d3"
    by blast+
  show "n3dc_obj_parse_obj_index_group cs st
          = Inr (e, (word_of_int (digits_value 0 d1) - 1,
                     word_of_int (digits_value 0 d2) - 1,
                     word_of_int (digits_value 0 d3) - 1))"
    by (rule index_group_accepts_fields [OF o sp sl tm r])
qed

theorem C7_invalid_characters_witness:
  "lines_kept ''v 0 0 0\<newline>vt 0,5 0\<newline>f 12ab/3x/4-5 1/1/1 1/1/1\<newline>''
   \<and> line_start ''v 0 0 0\<newline>vt 0,5 0\<newline>f 12ab/3x/4-5 1/1/1 1/1/1\<newline>'' 8
   \<and> vector_fields_start ''v 0 0 0\<newline>vt 0,5 0\<newline>f 12ab/3x/4-5 1/1/1 1/1/1\<newline>'' 8 = Some 11
   \<and> invalid_in_record ''v 0 0 0\<newline>vt 0,5 0\<newline>f 12ab/3x/4-5 1/1/1 1/1/1\<newline>'' 11 12
   \<and> (\<exists>c. n3dc_obj_parse_obj_vec2 ''v 0 0 0\<newline>vt 0,5 0\<newline>f 12ab/3x/4-5 1/1/1 1/1/1\<newline>'' 11
            = Inl (TexInvalidChar c))
   \<and> (\<exists>e. n3dc_obj_load ''v 0 0 0\<newline>vt 0,5 0\<newline>f 12ab/3x/4-5 1/1/1 1/1/1\<newline>'' 1 1 3 = Inl e)
   \<and> field_reads ''v 0 0 0\<newline>vt 0,5 0\<newline>f 12ab/3x/4-5 1/1/1 1/1/1\<newline>'' 18 23 ''12''
   \<and> field_reads ''v 0 0 0\<newline>vt 0,5 0\<newline>f 12ab/3x/4-5 1/1/1 1/1/1\<newline>'' 23 26 ''3''
   \<and> field_reads ''v 0 0 0\<newline>vt 0,5 0\<newline>f 12ab/3x/4-5 1/1/1 1/1/1\<newline>'' 26 30 ''4''
   \<and> n3dc_obj_parse_obj_index_group
        ''v 0 0 0\<newline>vt 0,5 0\<newline>f 12ab/3x/4-5 1/1/1 1/1/1\<newline>'' 18 = Inr (30, (11, 2, 3))"
proof -
  let ?cs = "''v 0 0 0\<newline>vt 0,5 0\<newline>f 12ab/3x/4-5 1/1/1 1/1/1\<newline>''"
  have v1: "lines_kept ?cs" by code_simp
  have v2: "line_start ?cs 8" by code_simp
  have v3: "8 + 1 < length ?cs" by simp
  have v4: "vector_fields_start ?cs 8 = Some 11" by code_simp
  have v5: "invalid_in_record ?cs 11 12" by code_simp
  have g1: "(18 :: nat) < 23 \<and> (23 :: nat) < 26 \<and> (26 :: nat) < 30 \<and> 30 < length ?cs
      \<and> (30 :: nat) - 18 < 2 ^ 32" by simp
  have g2: "?cs ! 18 = CHR '' '' \<and> ?cs ! 23 = CHR ''/'' \<and> ?cs ! 26 = CHR ''/''
      \<and> (?cs ! 30 = CHR '' '' \<or> ?cs ! 30 = newline)" by code_simp
  have f1: "field_reads ?cs 18 23 ''12''" by code_simp
  have f2: "field_reads ?cs 23 26 ''3''" by code_simp
  have f3: "field_reads ?cs 26 30 ''4''" by code_simp
  have n: "(word_of_int (digits_value 0 ''12'') - 1 :: uint) = 11"
    "(word_of_int (digits_value 0 ''3'') - 1 :: uint) = 2"
    "(word_of_int (digits_value 0 ''4'') - 1 :: uint) = 3"
    by code_simp+
  note t = C7_invalid_characters [where cs = ?cs and p = 8 and a = 11 and j = 12
      and max_vertices = 1 and max_normals = 1 and max_indices = 3
      and st = 18 and ?s1.0 = 23 and ?s2.0 = 26 and e = 30
      and ?d1.0 = "''12''" and ?d2.0 = "''3''" and ?d3.0 = "''4''"]
  from t v1 v2 v3 v4 v5 have a: "(\<exists>c. n3dc_obj_parse_obj_vec2 ?cs 11 = Inl (TexInvalidChar c))
      \<and> (\<exists>e. n3dc_obj_load ?cs 1 1 3 = Inl e)" by blast
  from t g1 g2 f1 f2 f3 have "n3dc_obj_parse_obj_index_group ?cs 18
      = Inr (30, (word_of_int (digits_value 0 ''12'') - 1,
                  word_of_int (digits_value 0 ''3'') - 1,
                  word_of_int (digits_value 0 ''4'') - 1))" by blast
  then have b: "n3dc_obj_parse_obj_index_group ?cs 18 = Inr (30, (11, 2, 3))"
    unfolding n .
  from v1 v2 v4 v5 a f1 f2 f3 b show ?thesis by blast
qed

subsection \<open>C8: the converter reads at most 10 characters\<close>

text \<open>
  C8. The numeric token converter, given the half-open range from \<open>start\<close> to \<open>end\<close>
  (of a length that an \<open>unsigned int\<close> holds), converts the first 10 characters of the
  range and nothing more: a longer range is cut to its first 10 characters before
  \<open>atof\<close> or \<open>atoi\<close> see it, without any diagnosis.
\<close>

theorem C8_converter_truncates:
  assumes "start \<le> end" and "end - start < 2 ^ 32"
  shows "n3dc_obj_string_section_to_float start end cs
           = atof (take 10 (take (end - start) (drop start cs)))
       \<and> n3dc_obj_string_section_to_uint start end cs
           = word_of_int (atoi (take 10 (take (end - start) (drop start cs))))
       \<and> length (string_section start end cs) \<le> 10"
  using string_section_take [OF assms, of cs]
  by (simp add: n3dc_obj_string_section_to_float_def n3dc_obj_string_section_to_uint_def
                min.commute)

theorem C8_converter_truncates_witness:
  "(2::nat) \<le> 15 \<and> (15::nat) - 2 < 2 ^ 32
   \<and> n3dc_obj_string_section_to_float 2 15 ''v 3.14159265358 0 0\<newline>'' = 314159265 / 100000000
   \<and> n3dc_obj_string_section_to_uint 2 15 ''f 1234567890123/1/1 '' = 1234567890"
proof -
  have f: "atof (take 10 (take (15 - 2) (drop 2 ''v 3.14159265358 0 0\<newline>''))) = 314159265 / 100000000"
    by code_simp
  have u: "(word_of_int (atoi (take 10 (take (15 - 2) (drop 2 ''f 1234567890123/1/1 '')))) :: uint) = 1234567890"
    by code_simp
  have h1: "(2::nat) \<le> 15" by simp
  have h2: "(15::nat) - 2 < 2 ^ 32" by simp
  show ?thesis
    using C8_converter_truncates [OF h1 h2, of "''v 3.14159265358 0 0\<newline>''"]
          C8_converter_truncates [OF h1 h2, of "''f 1234567890123/1/1 ''"] f u
    by simp
qed

subsection \<open>C9: texture coordinates are counted against \<open>max_indices\<close>\<close>

text \<open>
  C9. The count of the \<open>vt\<close> records is compared with \<open>max_indices\<close>, the limit of the
  index groups, and a load of more than \<open>max_indices\<close> of them has to fail with the
  capacity diagnosis of the texture coordinates, whatever \<open>max_vertices\<close> and \<open>max_normals\<close>
  are. It does where the driver scans the records
  (\<open>texture_record_over_capacity_at_driver\<close>, and \<open>texture_lines_over_capacity\<close> for every
  file whose lines are all kept). A \<open>vt\<close> record behind a blank line is never counted: the
  skip at the blank line takes it (as in C4). The file below has two texture lines; with
  \<open>max_indices = 1\<close> the load returns a result, of 0 corners.
\<close>

theorem C9_texture_record_after_blank_line:
  "texture_line_count ''vt 0 0\<newline>\<newline>vt 1 1\<newline>'' = 2
   \<and> n3dc_obj_load ''vt 0 0\<newline>\<newline>vt 1 1\<newline>'' 7 7 1
     = Inr \<lparr>num_vertices = 0, vertices = [], normals = [], texture_coords = []\<rparr>"
  by code_simp

subsection \<open>C10: a file without records\<close>

text \<open>
  C10. A file in which no line begins with a record tag (\<open>v \<close>, \<open>vt\<close>, \<open>vn\<close>, \<open>f \<close>), each
  line ending with a newline (the empty file, comment lines, blank lines), loads
  successfully: the result is not \<open>NULL\<close>, its corner count is 0 and its arrays are
  empty, whatever the capacities are.
\<close>

theorem C10_no_records:
  assumes "newline_terminated cs" and "no_record_lines cs"
  shows "n3dc_obj_load cs max_vertices max_normals max_indices
           = Inr \<lparr>num_vertices = 0, vertices = [], normals = [], texture_coords = []\<rparr>"
proof -
  let ?s0 = "initial_state max_vertices max_normals max_indices"
  have "1 \<le> current_char_offset ?s0" and "line_start cs (current_char_offset ?s0 - 1)"
    by (simp_all add: initial_state_def line_start_def)
  from load_loop_skips_all [OF assms(1) assms(2)[unfolded no_record_lines_iff] this]
  obtain c where c: "n3dc_obj_load_loop cs max_vertices max_normals max_indices ?s0
                       = Inr (?s0\<lparr>current_char_offset := c\<rparr>)" by blast
  have p: "parsed_indices (?s0\<lparr>current_char_offset := c\<rparr>) = 0"
    by (simp add: initial_state_def)
  have r: "resolve_loop (?s0\<lparr>current_char_offset := c\<rparr>) 0 [] [] [] = Inr ([], [], [])"
    by (subst resolve_loop.simps) (simp add: p)
  show ?thesis
    unfolding n3dc_obj_load_def c by (simp add: p r)
qed

theorem C10_no_records_witness:
  "newline_terminated ''# a comment\<newline>\<newline>o cube\<newline>s off\<newline>''
   \<and> no_record_lines ''# a comment\<newline>\<newline>o cube\<newline>s off\<newline>''
   \<and> n3dc_obj_load ''# a comment\<newline>\<newline>o cube\<newline>s off\<newline>'' 4 4 12
       = Inr \<lparr>num_vertices = 0, vertices = [], normals = [], texture_coords = []\<rparr>
   \<and> newline_terminated [] \<and> no_record_lines []
   \<and> n3dc_obj_load [] 4 4 12
       = Inr \<lparr>num_vertices = 0, vertices = [], normals = [], texture_coords = []\<rparr>"
proof -
  have h1: "newline_terminated ''# a comment\<newline>\<newline>o cube\<newline>s off\<newline>''" by code_simp
  have h2: "no_record_lines ''# a comment\<newline>\<newline>o cube\<newline>s off\<newline>''" by code_simp
  have e1: "newline_terminated []" by code_simp
  have e2: "no_record_lines []" by code_simp
  show ?thesis
    using C10_no_records [OF h1 h2, of 4 4 12] C10_no_records [OF e1 e2, of 4 4 12] h1 h2 e1 e2
    by simp
qed

end
